theory Spec2Isabelle
  imports Main "HOL-Library.Word" "HOL-Library.Sublist"
begin

section \<open>The UNIONFILES extractor (uni\_extract.py)\<close>

text \<open>
  A shallow embedding of \<^verbatim>\<open>src/uni_extract.py\<close>. Python \<^verbatim>\<open>bytes\<close> are lists of
  8-bit words, Python \<^verbatim>\<open>str\<close> values are lists of code points (natural numbers, since the
  decoded names are not restricted to one byte per character), and Python integers that
  are never negative are natural numbers.
\<close>

subsection \<open>Bytes, text and constants\<close>

type_synonym byte = "8 word"
type_synonym pybytes = "byte list"
type_synonym pystr = "nat list"

definition bytes_of :: "string \<Rightarrow> pybytes" where
  \<comment> \<open>An ASCII bytes literal \<^verbatim>\<open>b"..."\<close>.\<close>
  "bytes_of s = map of_char s"

definition str_of :: "string \<Rightarrow> pystr" where
  \<comment> \<open>An ASCII string literal \<^verbatim>\<open>"..."\<close>.\<close>
  "str_of s = map of_char s"

definition FIXED_PATH_LEN :: nat where
  "FIXED_PATH_LEN = 256"

definition HEADER_MAGIC :: pybytes where
  "HEADER_MAGIC = bytes_of ''UNIONFILES''"

definition START_OFFSET :: nat where
  "START_OFFSET = 0x10"

definition UEND :: pybytes where
  "UEND = bytes_of ''UEND''"

subsection \<open>Library operations on bytes\<close>

fun bytes_find :: "pybytes \<Rightarrow> pybytes \<Rightarrow> int" where
  \<comment> \<open>\<^verbatim>\<open>hay.find(needle)\<close>: the lowest index where \<^verbatim>\<open>needle\<close> occurs, or -1.\<close>
  "bytes_find [] needle = (if needle = [] then 0 else -1)"
| "bytes_find (b # hay) needle =
     (if take (length needle) (b # hay) = needle then 0
      else (let i = bytes_find hay needle in if i = -1 then -1 else i + 1))"

definition bytes_contains :: "pybytes \<Rightarrow> pybytes \<Rightarrow> bool" where
  \<comment> \<open>\<^verbatim>\<open>needle in hay\<close> on bytes objects: the subsequence test.\<close>
  "bytes_contains needle hay = (bytes_find hay needle \<noteq> -1)"

definition le_u32 :: "pybytes \<Rightarrow> nat" where
  \<comment> \<open>One \<^verbatim>\<open>I\<close> field of \<^verbatim>\<open>struct.unpack("<II", data)\<close>: four bytes, least significant first.\<close>
  "le_u32 bs = foldr (\<lambda>b acc. unat b + 256 * acc) bs 0"

definition unpack_II :: "pybytes \<Rightarrow> nat \<times> nat" where
  "unpack_II data = (le_u32 (take 4 data), le_u32 (take 4 (drop 4 data)))"

subsection \<open>The name decoder\<close>

text \<open>
  \<^verbatim>\<open>bs[:i].decode('shift_jis', errors='ignore')\<close> calls Python's codec, which is not part
  of the repository: the decoder is a parameter \<open>dec\<close> of the model.
\<close>

definition read_cstring :: "(pybytes \<Rightarrow> pystr) \<Rightarrow> pybytes \<Rightarrow> pystr" where
  "read_cstring dec bs =
     (let i = bytes_find bs [0];
          i = (if i = -1 then int (length bs) else i)
      in dec (take (nat i) bs))"

subsection \<open>The path validator\<close>

definition looks_like_valid_path :: "pystr \<Rightarrow> bool" where
  "looks_like_valid_path name =
     (if name = [] then False
      else if length name < 3 then False
      else if list_ex (\<lambda>c. c \<in> set name) [0, 1, 2, 3] then False
      else if list_all (\<lambda>c. c < 32) name then False
      else if take 2 name = str_of ''BM'' then False
      else True)"

subsection \<open>The filename sanitizer\<close>

datatype platform = Posix | Nt

fun os_sep :: "platform \<Rightarrow> nat" where
  \<comment> \<open>\<^verbatim>\<open>os.sep\<close>: the slash on POSIX, the backslash on Windows.\<close>
  "os_sep Posix = 47"
| "os_sep Nt = 92"

definition re_class :: "nat \<Rightarrow> bool" where
  \<comment> \<open>The character class \<^verbatim>\<open>[<>:"/\\|?*\x00-\x1f]\<close>.\<close>
  "re_class c = (c \<in> {60, 62, 58, 34, 47, 92, 124, 63, 42} \<or> c \<le> 31)"

definition sanitize_filename :: "platform \<Rightarrow> pystr \<Rightarrow> pystr" where
  "sanitize_filename pf name =
     (let name1 = dropWhile (\<lambda>c. c = os_sep pf) (map (\<lambda>c. if c = 92 then os_sep pf else c) name);
          name2 = map (\<lambda>c. if re_class c then 95 else c) name1
      in take 200 name2)"

subsection \<open>The archive file object\<close>

text \<open>
  The archive is opened once in binary mode; the model keeps its bytes and the cursor.
  A read past the end returns what is there (possibly nothing) and never fails.
\<close>

record pyfile =
  content :: pybytes
  pos :: nat

datatype exc =
    SystemExit pystr \<comment> \<open>\<^verbatim>\<open>raise SystemExit(message)\<close>: the process ends with status 1\<close>
  | OSError nat \<comment> \<open>an uncaught \<^verbatim>\<open>OSError\<close>, with its errno\<close>
  | ValueError

definition open_rb :: "pybytes \<Rightarrow> pyfile" where
  "open_rb bs = \<lparr>content = bs, pos = 0\<rparr>"

definition f_read :: "nat \<Rightarrow> pyfile \<Rightarrow> pybytes \<times> pyfile" where
  \<comment> \<open>\<^verbatim>\<open>f.read(n)\<close>\<close>
  "f_read n f =
     (let got = take n (drop (pos f) (content f))
      in (got, f\<lparr>pos := pos f + length got\<rparr>))"

definition f_seek :: "nat \<Rightarrow> pyfile \<Rightarrow> pyfile" where
  \<comment> \<open>\<^verbatim>\<open>f.seek(p)\<close>, from the start of the file\<close>
  "f_seek p f = f\<lparr>pos := p\<rparr>"

definition f_seek_cur :: "int \<Rightarrow> pyfile \<Rightarrow> exc + pyfile" where
  \<comment> \<open>\<^verbatim>\<open>f.seek(d, 1)\<close>, relative to the cursor; a negative target raises
      \<^verbatim>\<open>OSError(EINVAL)\<close>\<close>
  "f_seek_cur d f =
     (let target = int (pos f) + d
      in if target < 0 then Inl (OSError 22) else Inr (f\<lparr>pos := nat target\<rparr>))"

subsection \<open>The directory parser\<close>

type_synonym entry = "pystr \<times> nat \<times> nat"

datatype logline =
    EndOfDirectory pystr \<comment> \<open>directory parsing ended at an invalid path\<close>
  | Found nat \<comment> \<open>the number of entries found\<close>
  | SkipEmpty pystr
  | SkipInvalid pystr
  | Extracted pystr nat \<comment> \<open>the \<^verbatim>\<open>[OK]\<close> line\<close>
  | Failed pystr nat \<comment> \<open>the failure line, with the error caught\<close>

datatype iteration =
    Break "logline list" pyfile \<comment> \<open>the loop is left, after printing these lines\<close>
  | Continue entry pyfile \<comment> \<open>the entry is appended and the loop goes on\<close>
  | Raise exc

definition loop_body :: "(pybytes \<Rightarrow> pystr) \<Rightarrow> pyfile \<Rightarrow> iteration" where
  \<comment> \<open>One pass through the body of \<^verbatim>\<open>while True:\<close> in \<^verbatim>\<open>extract\<close>.\<close>
  "loop_body dec f =
     (let (chunk, f1) = f_read FIXED_PATH_LEN f in
      if chunk = [] \<or> length chunk < FIXED_PATH_LEN then Break [] f1
      else
        let name = read_cstring dec chunk in
        if \<not> looks_like_valid_path name then Break [EndOfDirectory name] f1
        else
          let (data, f2) = f_read 8 f1 in
          if length data < 8 then Break [] f2
          else
            let (offset, size') = unpack_II data;
                (uend, f3) = f_read 4 f2
            in case (if uend \<noteq> UEND then f_seek_cur (- 4) f3 else Inr f3) of
                 Inl e \<Rightarrow> Raise e
               | Inr f4 \<Rightarrow> Continue (name, offset, size') f4)"

lemma loop_body_Continue:
  assumes "loop_body dec f = Continue e f'"
  shows "content f' = content f" and "pos f + 260 \<le> pos f'" and "pos f' \<le> pos f + 268"
    and "pos f + 264 \<le> length (content f)"
  using assms
  by (auto simp: loop_body_def f_read_def f_seek_cur_def FIXED_PATH_LEN_def Let_def
      split: prod.splits if_splits sum.splits)

function read_records ::
  "(pybytes \<Rightarrow> pystr) \<Rightarrow> pyfile \<Rightarrow> entry list \<Rightarrow> exc + (entry list \<times> logline list \<times> pyfile)" where
  "read_records dec f entries =
     (case loop_body dec f of
        Break lg f' \<Rightarrow> Inr (entries, lg, f')
      | Continue e f' \<Rightarrow> read_records dec f' (entries @ [e])
      | Raise x \<Rightarrow> Inl x)"
  by pat_completeness auto
termination
proof (relation "measure (\<lambda>(dec, f, entries). length (content f) - pos f)")
  show "wf (measure (\<lambda>(dec, f, entries). length (content f) - pos f))"
    by simp
next
  fix dec :: "pybytes \<Rightarrow> pystr" and f f' :: pyfile and entries :: "entry list" and e :: entry
  assume "loop_body dec f = Continue e f'"
  from loop_body_Continue [OF this]
  show "((dec, f', entries @ [e]), (dec, f, entries))
          \<in> measure (\<lambda>(dec, f, entries). length (content f) - pos f)"
    by simp
qed

declare read_records.simps [simp del]

function loop_passes :: "(pybytes \<Rightarrow> pystr) \<Rightarrow> pyfile \<Rightarrow> nat" where
  \<comment> \<open>The number of times the body of \<^verbatim>\<open>while True:\<close> is entered, the pass that leaves
      the loop included.\<close>
  "loop_passes dec f =
     (case loop_body dec f of
        Break lg f' \<Rightarrow> 1
      | Continue e f' \<Rightarrow> Suc (loop_passes dec f')
      | Raise x \<Rightarrow> 1)"
  by pat_completeness auto
termination
proof (relation "measure (\<lambda>(dec, f). length (content f) - pos f)")
  show "wf (measure (\<lambda>(dec, f). length (content f) - pos f))"
    by simp
next
  fix dec :: "pybytes \<Rightarrow> pystr" and f f' :: pyfile and e :: entry
  assume "loop_body dec f = Continue e f'"
  from loop_body_Continue [OF this]
  show "((dec, f'), (dec, f)) \<in> measure (\<lambda>(dec, f). length (content f) - pos f)"
    by simp
qed

declare loop_passes.simps [simp del]

subsection \<open>The output side: file system and console\<close>

text \<open>
  What the run leaves behind: the regular files written (by path), the directories asked
  for, and the lines printed. The operating system calls are \<^verbatim>\<open>os.makedirs\<close> and the
  \<^verbatim>\<open>open(..., "wb")\<close>/\<^verbatim>\<open>write\<close> pair; whether one of them raises \<^verbatim>\<open>OSError\<close> is decided
  by the environment, not by the program, so the model takes it from the fault oracles of
  \<open>env\<close>. Console output is assumed to accept every line. \<^verbatim>\<open>os.sep\<close>, \<^verbatim>\<open>os.path.join\<close>
  and \<^verbatim>\<open>os.path.dirname\<close> belong to the platform and are parameters as well.
\<close>

record world =
  files :: "pystr \<rightharpoonup> pybytes"
  dirs :: "pystr set"
  stdout :: "logline list"

record env =
  plat :: platform
  decode :: "pybytes \<Rightarrow> pystr" \<comment> \<open>the \<^verbatim>\<open>shift_jis\<close> codec with \<^verbatim>\<open>errors='ignore'\<close>\<close>
  path_join :: "pystr \<Rightarrow> pystr \<Rightarrow> pystr"
  path_dirname :: "pystr \<Rightarrow> pystr"
  mk_fault :: "pystr \<Rightarrow> world \<Rightarrow> nat option"
    \<comment> \<open>the errno with which \<^verbatim>\<open>os.makedirs(p, exist_ok=True)\<close> fails now, if it does\<close>
  wr_fault :: "pystr \<Rightarrow> pybytes \<Rightarrow> world \<Rightarrow> (nat \<times> pybytes option) option"
    \<comment> \<open>the errno with which opening or writing the output file fails now, if it does, and
        what the file holds afterwards when it was opened (and so truncated) before\<close>

definition py_print :: "logline \<Rightarrow> world \<Rightarrow> world" where
  "py_print l w = w\<lparr>stdout := stdout w @ [l]\<rparr>"

definition os_makedirs :: "env \<Rightarrow> pystr \<Rightarrow> world \<Rightarrow> exc + world" where
  "os_makedirs ev p w =
     (case mk_fault ev p w of
        Some errno \<Rightarrow> Inl (OSError errno)
      | None \<Rightarrow> Inr (w\<lparr>dirs := insert p (dirs w)\<rparr>))"

definition write_file :: "env \<Rightarrow> pystr \<Rightarrow> pybytes \<Rightarrow> world \<Rightarrow> nat option \<times> world" where
  \<comment> \<open>\<^verbatim>\<open>with open(out_path, "wb") as out: out.write(data)\<close>; the first component is the
      errno of the \<^verbatim>\<open>OSError\<close> raised, if any.\<close>
  "write_file ev p data w =
     (case wr_fault ev p data w of
        None \<Rightarrow> (None, w\<lparr>files := (files w)(p \<mapsto> data)\<rparr>)
      | Some (errno, None) \<Rightarrow> (Some errno, w)
      | Some (errno, Some partial) \<Rightarrow> (Some errno, w\<lparr>files := (files w)(p \<mapsto> partial)\<rparr>))"

subsection \<open>The extractor\<close>

definition magic_not_found :: pystr where
  \<comment> \<open>The message of the \<^verbatim>\<open>SystemExit\<close>.\<close>
  "magic_not_found =
     [0x4e0d, 0x662f] @ str_of '' UNIONFILES'' @ [0xff08, 0x672a, 0x53d1, 0x73b0] @
     str_of '' magic'' @ [0xff09]"

definition bytes_index :: "pybytes \<Rightarrow> pybytes \<Rightarrow> exc + nat" where
  \<comment> \<open>\<^verbatim>\<open>hay.index(needle)\<close>: as \<^verbatim>\<open>find\<close>, but raises \<^verbatim>\<open>ValueError\<close> when absent.\<close>
  "bytes_index hay needle =
     (let i = bytes_find hay needle in if i = -1 then Inl ValueError else Inr (nat i))"

definition locate_magic :: "pyfile \<Rightarrow> exc + pyfile" where
  \<comment> \<open>The magic check at the head of \<^verbatim>\<open>extract\<close>.\<close>
  "locate_magic f =
     (let (magic, f1) = f_read (length HEADER_MAGIC) f in
      if magic \<noteq> HEADER_MAGIC then
        let f2 = f_seek 0 f1;
            (peek, f3) = f_read 64 f2
        in if \<not> bytes_contains HEADER_MAGIC peek then Inl (SystemExit magic_not_found)
           else (case bytes_index peek HEADER_MAGIC of
                   Inl e \<Rightarrow> Inl e
                 | Inr i \<Rightarrow> Inr (f_seek i f3))
      else Inr f1)"

fun extract_entries :: "env \<Rightarrow> pystr \<Rightarrow> pyfile \<Rightarrow> entry list \<Rightarrow> world \<Rightarrow> exc option \<times> world" where
  \<comment> \<open>The loop \<^verbatim>\<open>for name, offset, size in entries:\<close>; the first component of the result is the
      exception that ended the run, if one did.\<close>
  "extract_entries ev out_dir f [] w = (None, w)"
| "extract_entries ev out_dir f ((name, offset, size') # rest) w =
     (if offset = 0 \<or> size' = 0 then
        extract_entries ev out_dir f rest (py_print (SkipEmpty name) w)
      else
        let safe_name = sanitize_filename (plat ev) name in
        if safe_name = [] then
          extract_entries ev out_dir f rest (py_print (SkipInvalid name) w)
        else
          let out_path = path_join ev out_dir safe_name in
          (case os_makedirs ev (path_dirname ev out_path) w of
             Inl e \<Rightarrow> (Some e, w)
           | Inr w1 \<Rightarrow>
               (let f1 = f_seek offset f;
                    (data, f2) = f_read size' f1
                in (case write_file ev out_path data w1 of
                      (None, w2) \<Rightarrow>
                        extract_entries ev out_dir f2 rest (py_print (Extracted safe_name size') w2)
                    | (Some errno, w2) \<Rightarrow>
                        extract_entries ev out_dir f2 rest (py_print (Failed safe_name errno) w2)))))"

definition parse_directory ::
  "(pybytes \<Rightarrow> pystr) \<Rightarrow> pyfile \<Rightarrow> exc + (entry list \<times> logline list \<times> pyfile)" where
  \<comment> \<open>\<^verbatim>\<open>f.seek(START_OFFSET)\<close>, \<^verbatim>\<open>entries = []\<close> and the \<^verbatim>\<open>while\<close> loop.\<close>
  "parse_directory dec f = read_records dec (f_seek START_OFFSET f) []"

definition extract_file :: "env \<Rightarrow> pybytes \<Rightarrow> pystr \<Rightarrow> world \<Rightarrow> exc option \<times> world" where
  \<comment> \<open>\<^verbatim>\<open>extract(input_file, out_dir)\<close>, on the bytes of the input file.\<close>
  "extract_file ev input out_dir w =
     (case os_makedirs ev out_dir w of
        Inl e \<Rightarrow> (Some e, w)
      | Inr w1 \<Rightarrow>
          (case locate_magic (open_rb input) of
             Inl e \<Rightarrow> (Some e, w1)
           | Inr f \<Rightarrow>
               (case parse_directory (decode ev) f of
                  Inl e \<Rightarrow> (Some e, w1)
                | Inr (entries, lg, f') \<Rightarrow>
                    let w2 = py_print (Found (length entries)) (w1\<lparr>stdout := stdout w1 @ lg\<rparr>)
                    in extract_entries ev out_dir f' entries w2)))"

subsection \<open>Sample inputs\<close>

text \<open>
  Concrete inputs for the closed examples. On bytes below \<^verbatim>\<open>0x80\<close> the codec returns the
  code point of the same number; \<open>decode_ascii\<close> does that and drops every other byte, so
  it agrees with the codec on the samples, whose name slots hold ASCII only. The sample
  platform is POSIX, with \<^verbatim>\<open>posixpath.join\<close> and \<^verbatim>\<open>posixpath.dirname\<close> for two arguments.
\<close>

definition decode_ascii :: "pybytes \<Rightarrow> pystr" where
  "decode_ascii bs = map unat (filter (\<lambda>b. b < 0x80) bs)"

definition posix_join :: "pystr \<Rightarrow> pystr \<Rightarrow> pystr" where
  "posix_join a b =
     (if take 1 b = [47] then b
      else if a = [] \<or> last a = 47 then a @ b
      else a @ [47] @ b)"

definition posix_dirname :: "pystr \<Rightarrow> pystr" where
  "posix_dirname p =
     (let head = rev (dropWhile (\<lambda>c. c \<noteq> 47) (rev p))
      in if head \<noteq> [] \<and> \<not> list_all (\<lambda>c. c = 47) head
         then rev (dropWhile (\<lambda>c. c = 47) (rev head)) else head)"

definition sample_env :: env where
  \<comment> \<open>An environment in which no operating system call fails.\<close>
  "sample_env =
     \<lparr>plat = Posix, decode = decode_ascii, path_join = posix_join, path_dirname = posix_dirname,
      mk_fault = (\<lambda>p w. None), wr_fault = (\<lambda>p d w. None)\<rparr>"

definition empty_world :: world where
  "empty_world = \<lparr>files = Map.empty, dirs = {}, stdout = []\<rparr>"

definition sample_header :: pybytes where
  "sample_header = HEADER_MAGIC @ replicate 6 0"

definition sample_record :: pybytes where
  \<comment> \<open>The name \<^verbatim>\<open>a.bin\<close>, offset 280 and size 3.\<close>
  "sample_record = bytes_of ''a.bin'' @ [0] @ replicate 250 0 @ [0x18, 0x01, 0, 0] @ [3, 0, 0, 0]"

definition sample_with :: "pybytes \<Rightarrow> pybytes" where
  \<comment> \<open>The archive of the sample header, the sample record and whatever follows them.\<close>
  "sample_with rest = sample_header @ sample_record @ rest"

definition sample_archive :: pybytes where
  \<comment> \<open>One record, then the three bytes of its payload at offset 280.\<close>
  "sample_archive = sample_with [1, 2, 3]"

definition sample_two_records :: pybytes where
  \<comment> \<open>The sample record twice, with no tag between the two, then three bytes.\<close>
  "sample_two_records = sample_with (sample_record @ [1, 2, 3])"

definition sample_zero_size :: pybytes where
  \<comment> \<open>The sample header and one record \<^verbatim>\<open>a.bin\<close> with offset 280 and size 0; nothing follows.\<close>
  "sample_zero_size =
     sample_header @ bytes_of ''a.bin'' @ [0] @ replicate 250 0 @ [0x18, 0x01, 0, 0] @ [0, 0, 0, 0]"

definition sample_zero_offset :: pybytes where
  \<comment> \<open>The sample header and one record \<^verbatim>\<open>a.bin\<close> with offset 0 and size 3; nothing follows.\<close>
  "sample_zero_offset =
     sample_header @ bytes_of ''a.bin'' @ [0] @ replicate 250 0 @ [0, 0, 0, 0] @ [3, 0, 0, 0]"

definition sample_env_write_fails :: env where
  \<comment> \<open>Opening \<^verbatim>\<open>out/a.bin\<close> for writing fails with \<^verbatim>\<open>EACCES\<close>; nothing else fails.\<close>
  "sample_env_write_fails =
     sample_env\<lparr>wr_fault := (\<lambda>p d w. if p = str_of ''out/a.bin'' then Some (13, None) else None)\<rparr>"

definition sample_env_makedirs_fails :: env where
  \<comment> \<open>\<^verbatim>\<open>os.makedirs\<close> succeeds until the first line has been printed and fails with
      \<^verbatim>\<open>EACCES\<close> from then on (the directory's permissions change while the run goes on).\<close>
  "sample_env_makedirs_fails =
     sample_env\<lparr>mk_fault := (\<lambda>p w. if stdout w = [] then None else Some 13)\<rparr>"

section \<open>Properties\<close>

subsection \<open>Evaluating literals\<close>

lemma str_of_simps: "str_of [] = []" "str_of (c # cs) = of_char c # str_of cs"
  by (simp_all add: str_of_def)

lemma bytes_of_simps: "bytes_of [] = []" "bytes_of (c # cs) = of_char c # bytes_of cs"
  by (simp_all add: bytes_of_def)

subsection \<open>The path validator\<close>

text \<open>
  Claim C3. The path validator is a function of the name alone and applies its rules in
  order: the empty string, a string shorter than three characters, a string containing one
  of the characters with code points 0 to 3, a string all of whose characters are below
  code point 32, and a string starting with \<^verbatim>\<open>BM\<close> are invalid; every other string is valid.
  It rejects the empty string, \<^verbatim>\<open>ab\<close>, three characters of code point 1 and \<^verbatim>\<open>BM8xxx\<close>, and
  accepts \<^verbatim>\<open>data/foo.txt\<close>.
\<close>

theorem looks_like_valid_path_rules:
  "(looks_like_valid_path name \<longleftrightarrow>
      \<not> (name = [] \<or> length name < 3 \<or> (\<exists>c\<in>set name. c \<le> 3) \<or> (\<forall>c\<in>set name. c < 32)
         \<or> take 2 name = str_of ''BM''))
   \<and> \<not> looks_like_valid_path (str_of [])
   \<and> \<not> looks_like_valid_path (str_of ''ab'')
   \<and> \<not> looks_like_valid_path [1, 1, 1]
   \<and> \<not> looks_like_valid_path (str_of ''BM8xxx'')
   \<and> looks_like_valid_path (str_of ''data/foo.txt'')"
proof -
  have ex: "list_ex (\<lambda>c. c \<in> set name) [0, 1, 2, 3] \<longleftrightarrow> (\<exists>c\<in>set name. c \<le> 3)"
  proof
    assume "list_ex (\<lambda>c. c \<in> set name) [0, 1, 2, 3]"
    then have "0 \<in> set name \<or> 1 \<in> set name \<or> 2 \<in> set name \<or> 3 \<in> set name"
      by simp
    moreover have "(0::nat) \<le> 3" "(1::nat) \<le> 3" "(2::nat) \<le> 3" "(3::nat) \<le> 3"
      by simp_all
    ultimately show "\<exists>c\<in>set name. c \<le> 3" by blast
  next
    assume "\<exists>c\<in>set name. c \<le> 3"
    then obtain c where c: "c \<in> set name" "c \<le> 3" by blast
    from c(2) have "c = 0 \<or> c = 1 \<or> c = 2 \<or> c = 3" by arith
    with c(1) show "list_ex (\<lambda>c. c \<in> set name) [0, 1, 2, 3]" by auto
  qed
  have general: "looks_like_valid_path name \<longleftrightarrow>
      \<not> (name = [] \<or> length name < 3 \<or> (\<exists>c\<in>set name. c \<le> 3) \<or> (\<forall>c\<in>set name. c < 32)
         \<or> take 2 name = str_of ''BM'')"
    unfolding looks_like_valid_path_def ex by (simp add: list_all_iff)
  have e1: "\<not> looks_like_valid_path (str_of [])"
    by (simp add: looks_like_valid_path_def str_of_simps)
  have e2: "\<not> looks_like_valid_path (str_of ''ab'')"
    by (simp add: looks_like_valid_path_def str_of_simps)
  have e3: "\<not> looks_like_valid_path [1, 1, 1]"
    by (simp add: looks_like_valid_path_def str_of_simps)
  have e4: "\<not> looks_like_valid_path (str_of ''BM8xxx'')"
    by (simp add: looks_like_valid_path_def str_of_simps)
  have e5: "looks_like_valid_path (str_of ''data/foo.txt'')"
    by (simp add: looks_like_valid_path_def str_of_simps)
  from general e1 e2 e3 e4 e5 show ?thesis by blast
qed

theorem looks_like_valid_path_rules_witness:
  "looks_like_valid_path (str_of ''a.bin'') \<and> \<not> looks_like_valid_path (str_of ''BMP'')"
  using looks_like_valid_path_rules [of "str_of ''a.bin''"] looks_like_valid_path_rules [of "str_of ''BMP''"]
  by (simp add: str_of_simps)


subsection \<open>The filename sanitizer\<close>

lemma sanitize_filename_no_sep: "os_sep pf \<notin> set (sanitize_filename pf name)"
proof -
  have "re_class (os_sep pf)" by (cases pf) (simp_all add: re_class_def)
  then have "os_sep pf \<notin> set (map (\<lambda>c. if re_class c then 95 else c) xs)" for xs
    by (cases pf) auto
  then show ?thesis
    unfolding sanitize_filename_def Let_def by (meson in_set_takeD)
qed

text \<open>
  Claim C4. The sanitizer is said to replace the characters \<^verbatim>\<open>< > : " / \ | ? *\<close> and the
  control characters by an underscore while keeping the separator that the backslash
  normalization produced. The replacement runs over the whole string and its character
  class holds both the slash and the backslash, so the separator is replaced like the
  rest: \<^verbatim>\<open>dir\file.txt\<close> becomes \<^verbatim>\<open>dir_file.txt\<close> on either platform, and no result of
  the sanitizer ever contains the platform's separator.
\<close>

theorem sanitize_filename_flattens:
  "sanitize_filename Posix (str_of ''dir'' @ [92] @ str_of ''file.txt'') = str_of ''dir_file.txt''
   \<and> sanitize_filename Nt (str_of ''dir'' @ [92] @ str_of ''file.txt'') = str_of ''dir_file.txt''
   \<and> sanitize_filename Posix (str_of ''dir/file.txt'') = str_of ''dir_file.txt''
   \<and> os_sep pf \<notin> set (sanitize_filename pf name)"
proof -
  have "sanitize_filename Posix (str_of ''dir'' @ [92] @ str_of ''file.txt'') = str_of ''dir_file.txt''"
    by (simp add: sanitize_filename_def str_of_simps re_class_def)
  moreover
  have "sanitize_filename Nt (str_of ''dir'' @ [92] @ str_of ''file.txt'') = str_of ''dir_file.txt''"
    by (simp add: sanitize_filename_def str_of_simps re_class_def)
  moreover
  have "sanitize_filename Posix (str_of ''dir/file.txt'') = str_of ''dir_file.txt''"
    by (simp add: sanitize_filename_def str_of_simps re_class_def)
  ultimately show ?thesis
    using sanitize_filename_no_sep [of pf name] by blast
qed

lemma sanitize_filename_empty_iff:
  "sanitize_filename pf name = [] \<longleftrightarrow> set name \<subseteq> {92, os_sep pf}"
proof -
  have "sanitize_filename pf name = [] \<longleftrightarrow>
        dropWhile (\<lambda>c. c = os_sep pf) (map (\<lambda>c. if c = 92 then os_sep pf else c) name) = []"
    by (simp add: sanitize_filename_def Let_def)
  also have "\<dots> \<longleftrightarrow> (\<forall>c\<in>set name. (if c = 92 then os_sep pf else c) = os_sep pf)"
    unfolding dropWhile_eq_Nil_conv by (induction name) auto
  also have "\<dots> \<longleftrightarrow> set name \<subseteq> {92, os_sep pf}"
    by auto
  finally show ?thesis .
qed

text \<open>
  Claim C8, as amended. The sanitizer returns at most 200 characters, and its result is
  empty exactly when the name consists of nothing but backslashes and separators (the
  empty name included): leading separators are stripped before anything else is done.
\<close>

theorem sanitize_filename_length_and_empty:
  "length (sanitize_filename pf name) \<le> 200
   \<and> (sanitize_filename pf name = [] \<longleftrightarrow> set name \<subseteq> {92, os_sep pf})"
  using sanitize_filename_empty_iff [of pf name]
  by (simp add: sanitize_filename_def Let_def)

theorem sanitize_filename_length_and_empty_witness:
  "length (sanitize_filename Posix (str_of ''a.bin'')) \<le> 200
   \<and> sanitize_filename Posix (str_of ''a.bin'') \<noteq> []
   \<and> sanitize_filename Nt [92, 92, 92] = []"
  using sanitize_filename_length_and_empty [of Posix "str_of ''a.bin''"]
    sanitize_filename_length_and_empty [of Nt "[92, 92, 92]"]
  by (simp add: str_of_simps)

text \<open>
  Claim C8 as stated, that only the empty name gives the empty result, fails at the name
  made of one backslash; a name of three backslashes passes the path validator and is
  sanitized to the empty string as well.
\<close>

theorem sanitize_filename_empty_counterexample:
  "[92] \<noteq> ([] :: pystr) \<and> sanitize_filename Posix [92] = [] \<and> sanitize_filename Nt [92] = []
   \<and> looks_like_valid_path [92, 92, 92] \<and> sanitize_filename Nt [92, 92, 92] = []"
  by (simp add: sanitize_filename_def looks_like_valid_path_def str_of_simps)

subsection \<open>One pass of the directory loop\<close>

lemma length_UEND: "length UEND = 4"
  by (simp add: UEND_def bytes_of_def)

lemma f_read_eq:
  "f_read n f =
     (take n (drop (pos f) (content f)), f\<lparr>pos := pos f + min n (length (content f) - pos f)\<rparr>)"
  by (simp add: f_read_def Let_def min.commute)

lemma loop_body_short_slot:
  assumes "length (content f) < pos f + 256"
  shows "loop_body dec f = Break [] (f\<lparr>pos := pos f + (length (content f) - pos f)\<rparr>)"
proof -
  have "min 256 (length (content f) - pos f) = length (content f) - pos f"
    using assms by simp
  moreover have "length (take 256 (drop (pos f) (content f))) < 256"
    using assms by simp
  ultimately show ?thesis
    by (simp only: loop_body_def f_read_eq FIXED_PATH_LEN_def Let_def prod.case if_True simp_thms)
qed

lemma slot_read:
  assumes "pos f + 256 \<le> length (content f)"
  shows "f_read FIXED_PATH_LEN f = (take 256 (drop (pos f) (content f)), f\<lparr>pos := pos f + 256\<rparr>)"
    and "length (take 256 (drop (pos f) (content f))) = 256"
    and "take 256 (drop (pos f) (content f)) \<noteq> []"
proof -
  show 1: "length (take 256 (drop (pos f) (content f))) = 256"
    using assms by simp
  then show "take 256 (drop (pos f) (content f)) \<noteq> []"
    by auto
  have "min 256 (length (content f) - pos f) = 256"
    using assms by simp
  then show "f_read FIXED_PATH_LEN f = (take 256 (drop (pos f) (content f)), f\<lparr>pos := pos f + 256\<rparr>)"
    by (simp only: f_read_eq FIXED_PATH_LEN_def)
qed

lemma loop_body_after_slot:
  assumes "pos f + 256 \<le> length (content f)"
  shows "loop_body dec f =
     (let name = read_cstring dec (take 256 (drop (pos f) (content f))) in
        if \<not> looks_like_valid_path name then Break [EndOfDirectory name] (f\<lparr>pos := pos f + 256\<rparr>)
        else
          let (data, f2) = f_read 8 (f\<lparr>pos := pos f + 256\<rparr>) in
          if length data < 8 then Break [] f2
          else
            let (offset, size') = unpack_II data;
                (uend, f3) = f_read 4 f2
            in case (if uend \<noteq> UEND then f_seek_cur (- 4) f3 else Inr f3) of
                 Inl e \<Rightarrow> Raise e
               | Inr f4 \<Rightarrow> Continue (name, offset, size') f4)"
  unfolding loop_body_def slot_read(1) [OF assms] prod.case
  using slot_read(2,3) [OF assms] by (simp add: FIXED_PATH_LEN_def)

lemma loop_body_invalid:
  assumes "pos f + 256 \<le> length (content f)"
    and "\<not> looks_like_valid_path (read_cstring dec (take 256 (drop (pos f) (content f))))"
  shows "loop_body dec f =
           Break [EndOfDirectory (read_cstring dec (take 256 (drop (pos f) (content f))))]
             (f\<lparr>pos := pos f + 256\<rparr>)"
  unfolding loop_body_after_slot [OF assms(1)] using assms(2) by (simp add: Let_def)

lemma loop_body_short_pair:
  assumes "pos f + 256 \<le> length (content f)" and "length (content f) < pos f + 264"
    and "looks_like_valid_path (read_cstring dec (take 256 (drop (pos f) (content f))))"
  shows "loop_body dec f = Break [] (f\<lparr>pos := length (content f)\<rparr>)"
proof -
  define data where "data = take 8 (drop (pos f + 256) (content f))"
  have "min 8 (length (content f) - (pos f + 256)) = length (content f) - (pos f + 256)"
    using assms by simp
  then have rd: "f_read 8 (f\<lparr>pos := pos f + 256\<rparr>) = (data, f\<lparr>pos := length (content f)\<rparr>)"
    using assms(1) by (simp add: f_read_eq data_def)
  have short: "length data < 8"
    using assms by (simp add: data_def)
  show ?thesis
    unfolding loop_body_after_slot [OF assms(1)] Let_def rd prod.case
    using assms(3) short by simp
qed

lemma loop_body_record:
  assumes "pos f + 264 \<le> length (content f)"
    and "looks_like_valid_path (read_cstring dec (take 256 (drop (pos f) (content f))))"
  shows "loop_body dec f =
           Continue (read_cstring dec (take 256 (drop (pos f) (content f))),
                     le_u32 (take 4 (drop (pos f + 256) (content f))),
                     le_u32 (take 4 (drop (pos f + 260) (content f))))
             (f\<lparr>pos := (if take 4 (drop (pos f + 264) (content f)) = UEND then pos f + 268
                         else pos f + 260 + min 4 (length (content f) - (pos f + 264)))\<rparr>)"
proof -
  let ?bs = "content f" and ?p = "pos f"
  let ?data = "take 8 (drop (?p + 256) ?bs)"
  let ?uend = "take 4 (drop (?p + 264) ?bs)"
  let ?k = "min 4 (length ?bs - (?p + 264))"
  have slot: "?p + 256 \<le> length ?bs" using assms(1) by simp
  have "min 8 (length ?bs - (?p + 256)) = 8"
    using assms(1) by simp
  then have rd: "f_read 8 (f\<lparr>pos := ?p + 256\<rparr>) = (?data, f\<lparr>pos := ?p + 264\<rparr>)"
    by (simp add: f_read_eq)
  have len: "length ?data = 8" using assms(1) by simp
  have "take 4 (drop 4 ?data) = take 4 (drop (?p + 260) ?bs)"
    by (simp add: drop_take add.commute)
  then have un: "unpack_II ?data =
      (le_u32 (take 4 (drop (?p + 256) ?bs)), le_u32 (take 4 (drop (?p + 260) ?bs)))"
    by (simp add: unpack_II_def)
  have ru: "f_read 4 (f\<lparr>pos := ?p + 264\<rparr>) = (?uend, f\<lparr>pos := ?p + 264 + ?k\<rparr>)"
    by (simp add: f_read_eq)
  have sk: "f_seek_cur (- 4) (f\<lparr>pos := ?p + 264 + ?k\<rparr>) = Inr (f\<lparr>pos := ?p + 260 + ?k\<rparr>)"
    by (simp add: f_seek_cur_def Let_def)
  have full: "?k = 4" if "?uend = UEND"
  proof -
    from that have "length ?uend = 4" by (simp add: length_UEND)
    then show ?thesis by simp
  qed
  show ?thesis
  proof (cases "?uend = UEND")
    case True
    with full have "f\<lparr>pos := ?p + 264 + ?k\<rparr> = f\<lparr>pos := ?p + 268\<rparr>" by simp
    with True show ?thesis
      unfolding loop_body_after_slot [OF slot] using assms(2) len
      by (simp add: Let_def rd un ru)
  next
    case False
    then show ?thesis
      unfolding loop_body_after_slot [OF slot] using assms(2) len
      by (simp add: Let_def rd un ru sk)
  qed
qed

lemma bytes_find_zero:
  "bytes_find bs [0] = (if 0 \<in> set bs then int (length (takeWhile (\<lambda>b. b \<noteq> 0) bs)) else - 1)"
  by (induction bs) (auto simp: Let_def)

lemma read_cstring_takeWhile: "read_cstring dec bs = dec (takeWhile (\<lambda>b. b \<noteq> 0) bs)"
proof (cases "0 \<in> set bs")
  case True
  then show ?thesis
    by (simp add: read_cstring_def bytes_find_zero Let_def takeWhile_eq_take [symmetric])
next
  case False
  then have tw: "takeWhile (\<lambda>b. b \<noteq> 0) bs = bs"
    by (induction bs) auto
  from False show ?thesis
    by (simp add: read_cstring_def bytes_find_zero Let_def tw)
qed

subsection \<open>The directory loop\<close>

lemma read_records_Break:
  "loop_body dec f = Break lg f' \<Longrightarrow> read_records dec f acc = Inr (acc, lg, f')"
  by (simp add: read_records.simps)

lemma read_records_Continue:
  "loop_body dec f = Continue e f' \<Longrightarrow> read_records dec f acc = read_records dec f' (acc @ [e])"
  by (simp add: read_records.simps)

lemma loop_body_outcome:
  "(\<exists>lg f'. loop_body dec f = Break lg f' \<and> content f' = content f)
   \<or> (\<exists>e f'. loop_body dec f = Continue e f' \<and> looks_like_valid_path (fst e))"
proof (cases "pos f + 256 \<le> length (content f)")
  case False
  then show ?thesis using loop_body_short_slot [of f dec] by simp
next
  case slot: True
  show ?thesis
  proof (cases "looks_like_valid_path (read_cstring dec (take 256 (drop (pos f) (content f))))")
    case False
    then show ?thesis using loop_body_invalid [OF slot, of dec] by simp
  next
    case valid: True
    show ?thesis
    proof (cases "pos f + 264 \<le> length (content f)")
      case False
      then show ?thesis using loop_body_short_pair [OF slot _ valid] by simp
    next
      case True
      then show ?thesis using loop_body_record [OF True valid] valid by simp
    qed
  qed
qed

lemma read_records_result:
  "\<exists>es lg f'. read_records dec f acc = Inr (acc @ es, lg, f')
      \<and> content f' = content f
      \<and> length es * 260 \<le> length (content f) - pos f
      \<and> (\<forall>e\<in>set es. looks_like_valid_path (fst e))"
proof (induction dec f acc rule: read_records.induct)
  case (1 dec f acc)
  from loop_body_outcome [of dec f] show ?case
  proof (elim disjE exE conjE)
    fix lg f'
    assume "loop_body dec f = Break lg f'" and "content f' = content f"
    then show ?thesis by (simp add: read_records_Break)
  next
    fix e f1
    assume step: "loop_body dec f = Continue e f1" and valid: "looks_like_valid_path (fst e)"
    from "1.IH" [OF step] obtain es lg f' where
      rec: "read_records dec f1 (acc @ [e]) = Inr ((acc @ [e]) @ es, lg, f')"
      and c: "content f' = content f1"
      and len: "length es * 260 \<le> length (content f1) - pos f1"
      and ok: "\<forall>e\<in>set es. looks_like_valid_path (fst e)"
      by blast
    note adv = loop_body_Continue [OF step]
    have "read_records dec f acc = Inr (acc @ (e # es), lg, f')"
      using rec by (simp add: read_records_Continue [OF step])
    moreover have "length (e # es) * 260 \<le> length (content f) - pos f"
      using len adv by simp
    moreover have "\<forall>x\<in>set (e # es). looks_like_valid_path (fst x)"
      using ok valid by simp
    moreover have "content f' = content f"
      using c adv(1) by simp
    ultimately show ?thesis by blast
  qed
qed

lemma loop_passes_Break: "loop_body dec f = Break lg f' \<Longrightarrow> loop_passes dec f = 1"
  by (simp add: loop_passes.simps)

lemma loop_passes_Continue:
  "loop_body dec f = Continue e f' \<Longrightarrow> loop_passes dec f = Suc (loop_passes dec f')"
  by (simp add: loop_passes.simps)

lemma read_records_passes:
  "\<exists>es lg f'. read_records dec f acc = Inr (acc @ es, lg, f')
      \<and> loop_passes dec f = Suc (length es)
      \<and> length es * 260 \<le> length (content f) - pos f"
proof (induction dec f acc rule: read_records.induct)
  case (1 dec f acc)
  from loop_body_outcome [of dec f] show ?case
  proof (elim disjE exE conjE)
    fix lg f'
    assume "loop_body dec f = Break lg f'"
    then show ?thesis by (simp add: read_records_Break loop_passes_Break)
  next
    fix e f1
    assume step: "loop_body dec f = Continue e f1"
    from "1.IH" [OF step] obtain es lg f' where
      rec: "read_records dec f1 (acc @ [e]) = Inr ((acc @ [e]) @ es, lg, f')"
      and n: "loop_passes dec f1 = Suc (length es)"
      and len: "length es * 260 \<le> length (content f1) - pos f1"
      by blast
    note adv = loop_body_Continue [OF step]
    have "read_records dec f acc = Inr (acc @ (e # es), lg, f')"
      using rec by (simp add: read_records_Continue [OF step])
    moreover have "loop_passes dec f = Suc (length (e # es))"
      using n by (simp add: loop_passes_Continue [OF step])
    moreover have "length (e # es) * 260 \<le> length (content f) - pos f"
      using len adv by simp
    ultimately show ?thesis by blast
  qed
qed

lemma take_drop_take:
  "p + k \<le> n \<Longrightarrow> take k (drop p (take n bs)) = take k (drop p bs)"
  by (simp add: drop_take min_def)

lemma read_records_truncated:
  assumes "read_records dec (f\<lparr>content := take n (content f)\<rparr>) acc = Inr (es_t, lg_t, f_t)"
    and "read_records dec f acc = Inr (es, lg, f')"
  shows "prefix es_t es"
  using assms
proof (induction dec f acc arbitrary: es_t lg_t f_t es lg f' rule: read_records.induct)
  case (1 dec f acc)
  let ?t = "f\<lparr>content := take n (content f)\<rparr>"
  let ?name = "\<lambda>g. read_cstring dec (take 256 (drop (pos g) (content g)))"
  from read_records_result [of dec f acc] "1.prems"(2) have ext: "prefix acc es"
    by auto
  from loop_body_outcome [of dec ?t] show ?case
  proof (elim disjE exE conjE)
    fix l g
    assume "loop_body dec ?t = Break l g"
    then have "es_t = acc" using "1.prems"(1) by (simp add: read_records_Break)
    with ext show ?thesis by simp
  next
    fix e t1
    assume step_t: "loop_body dec ?t = Continue e t1"
    note adv_t = loop_body_Continue [OF step_t]
    from adv_t(4) have room_t: "pos f + 264 \<le> length (take n (content f))" by simp
    then have room: "pos f + 264 \<le> length (content f)" and n: "pos f + 264 \<le> n" by simp_all
    have same_slot: "?name ?t = ?name f"
      using n by (simp add: take_drop_take)
    have valid_t: "looks_like_valid_path (?name ?t)"
    proof (rule ccontr)
      assume "\<not> looks_like_valid_path (?name ?t)"
      from loop_body_invalid [of ?t dec, OF _ this] room_t step_t show False by simp
    qed
    then have valid: "looks_like_valid_path (?name f)" using same_slot by simp
    have room_t': "pos ?t + 264 \<le> length (content ?t)" using room_t by simp
    note rec_t = loop_body_record [of ?t dec, OF room_t' valid_t]
    note rec_f = loop_body_record [OF room valid]
    have e_t: "e = (?name f, le_u32 (take 4 (drop (pos f + 256) (content f))),
                   le_u32 (take 4 (drop (pos f + 260) (content f))))"
      using rec_t step_t same_slot n by (simp add: take_drop_take)
    obtain f1 where step_f: "loop_body dec f = Continue e f1"
      using rec_f e_t by simp
    from "1.prems"(2) have full: "read_records dec f1 (acc @ [e]) = Inr (es, lg, f')"
      by (simp add: read_records_Continue [OF step_f])
    from "1.prems"(1) have trunc: "read_records dec t1 (acc @ [e]) = Inr (es_t, lg_t, f_t)"
      by (simp add: read_records_Continue [OF step_t])
    show ?thesis
    proof (cases "pos f + 268 \<le> n")
      case True
      then have "take 4 (drop (pos f + 264) (take n (content f))) = take 4 (drop (pos f + 264) (content f))"
        by (simp add: take_drop_take)
      moreover have "min 4 (length (take n (content f)) - (pos f + 264)) =
                     min 4 (length (content f) - (pos f + 264))"
        using True by (auto simp: min_def)
      ultimately have "t1 = f1\<lparr>content := take n (content f1)\<rparr>"
        using rec_t rec_f step_t step_f by simp
      with "1.IH" [OF step_f _ full] trunc show ?thesis by simp
    next
      case False
      then have "length (content t1) < pos t1 + 256"
        using adv_t(1,2) by simp
      from loop_body_short_slot [OF this] trunc have "es_t = acc @ [e]"
        by (simp add: read_records_Break)
      moreover from read_records_result [of dec f1 "acc @ [e]"] full have "prefix (acc @ [e]) es"
        by auto
      ultimately show ?thesis by simp
    qed
  qed
qed

lemma loop_body_Continue_record:
  assumes "loop_body dec f = Continue e f1"
  shows "looks_like_valid_path (read_cstring dec (take 256 (drop (pos f) (content f))))"
    and "e = (read_cstring dec (take 256 (drop (pos f) (content f))),
              le_u32 (take 4 (drop (pos f + 256) (content f))),
              le_u32 (take 4 (drop (pos f + 260) (content f))))"
    and "f1 = f\<lparr>pos := (if take 4 (drop (pos f + 264) (content f)) = UEND then pos f + 268
                         else pos f + 260 + min 4 (length (content f) - (pos f + 264)))\<rparr>"
proof -
  note adv = loop_body_Continue [OF assms]
  from adv(4) have slot: "pos f + 256 \<le> length (content f)" by simp
  show valid: "looks_like_valid_path (read_cstring dec (take 256 (drop (pos f) (content f))))"
  proof (rule ccontr)
    assume "\<not> ?thesis"
    from loop_body_invalid [OF slot this] assms show False by simp
  qed
  from loop_body_record [OF adv(4) valid] assms
  show "e = (read_cstring dec (take 256 (drop (pos f) (content f))),
              le_u32 (take 4 (drop (pos f + 256) (content f))),
              le_u32 (take 4 (drop (pos f + 260) (content f))))"
    and "f1 = f\<lparr>pos := (if take 4 (drop (pos f + 264) (content f)) = UEND then pos f + 268
                         else pos f + 260 + min 4 (length (content f) - (pos f + 264)))\<rparr>"
    by simp_all
qed

lemma loop_body_Continue_inside:
  assumes "loop_body dec f = Continue e f1"
  shows "pos f1 \<le> length (content f)"
proof (cases "take 4 (drop (pos f + 264) (content f)) = UEND")
  case True
  then have "length (take 4 (drop (pos f + 264) (content f))) = 4"
    by (simp add: length_UEND)
  then have "pos f + 268 \<le> length (content f)" by simp
  with True loop_body_Continue_record(3) [OF assms] show ?thesis by simp
next
  case False
  with loop_body_Continue_record(3) [OF assms] loop_body_Continue(4) [OF assms]
  show ?thesis by simp
qed

lemma read_records_entries:
  assumes "read_records dec f acc = Inr (es, lg, f')" and "e \<in> set es"
  shows "e \<in> set acc \<or>
         (\<exists>p. pos f \<le> p \<and> p + 264 \<le> length (content f) \<and>
              e = (read_cstring dec (take 256 (drop p (content f))),
                   le_u32 (take 4 (drop (p + 256) (content f))),
                   le_u32 (take 4 (drop (p + 260) (content f)))))"
  using assms
proof (induction dec f acc arbitrary: es lg f' rule: read_records.induct)
  case (1 dec f acc)
  from loop_body_outcome [of dec f] show ?case
  proof (elim disjE exE conjE)
    fix l g
    assume "loop_body dec f = Break l g"
    with "1.prems" show ?thesis by (simp add: read_records_Break)
  next
    fix x f1
    assume step: "loop_body dec f = Continue x f1"
    note adv = loop_body_Continue [OF step]
    from "1.prems"(1) have "read_records dec f1 (acc @ [x]) = Inr (es, lg, f')"
      by (simp add: read_records_Continue [OF step])
    from "1.IH" [OF step this "1.prems"(2)]
    consider "e \<in> set acc" | "e = x"
      | p where "pos f1 \<le> p" "p + 264 \<le> length (content f1)"
          "e = (read_cstring dec (take 256 (drop p (content f1))),
                le_u32 (take 4 (drop (p + 256) (content f1))),
                le_u32 (take 4 (drop (p + 260) (content f1))))"
      by auto
    then show ?thesis
    proof cases
      case 1
      then show ?thesis by simp
    next
      case 2
      with loop_body_Continue_record(2) [OF step] adv(4) show ?thesis by blast
    next
      case 3
      from 3(1) adv(2) have "pos f \<le> p" by simp
      with 3(2,3) adv(1) show ?thesis by auto
    qed
  qed
qed

subsection \<open>The sample archive\<close>

lemmas sample_defs = sample_with_def sample_header_def sample_record_def HEADER_MAGIC_def bytes_of_simps

lemma valid_a_bin: "looks_like_valid_path (str_of ''a.bin'')"
  by (simp add: looks_like_valid_path_def str_of_simps)

lemma decode_ascii_a_bin: "decode_ascii (bytes_of ''a.bin'') = str_of ''a.bin''"
  by (simp add: decode_ascii_def bytes_of_simps str_of_simps)

lemma sample_slot:
  "take 256 (drop 16 (sample_with rest)) = bytes_of ''a.bin'' @ [0] @ replicate 250 0"
  by (simp add: sample_defs)

lemma sample_name:
  "read_cstring decode_ascii (take 256 (drop 16 (sample_with rest))) = str_of ''a.bin''"
  unfolding sample_slot read_cstring_takeWhile
  by (simp add: bytes_of_simps str_of_simps decode_ascii_def)

lemma sample_pair:
  "le_u32 (take 4 (drop 272 (sample_with rest))) = 280"
  "le_u32 (take 4 (drop 276 (sample_with rest))) = 3"
  by (simp_all add: sample_defs le_u32_def)

lemma sample_tail:
  "drop 280 (sample_with rest) = rest"
  by (simp add: sample_defs)

lemma sample_length:
  "length (sample_with rest) = 280 + length rest"
  by (simp add: sample_defs)

lemma loop_body_sample:
  "loop_body decode_ascii \<lparr>content = sample_with rest, pos = 16\<rparr> =
     Continue (str_of ''a.bin'', 280, 3)
       \<lparr>content = sample_with rest,
        pos = (if take 4 rest = UEND then 284 else 276 + min 4 (length rest))\<rparr>"
  using loop_body_record [of "\<lparr>content = sample_with rest, pos = 16\<rparr>" decode_ascii]
  by (simp add: sample_name sample_pair sample_tail sample_length valid_a_bin)

lemma loop_body_sample_archive:
  "loop_body decode_ascii \<lparr>content = sample_archive, pos = 16\<rparr> =
     Continue (str_of ''a.bin'', 280, 3) \<lparr>content = sample_archive, pos = 279\<rparr>"
  using loop_body_sample [of "[1, 2, 3]"]
  by (simp add: sample_archive_def UEND_def bytes_of_simps)

lemma read_records_sample:
  "read_records decode_ascii \<lparr>content = sample_archive, pos = 16\<rparr> acc =
     Inr (acc @ [(str_of ''a.bin'', 280, 3)], [], \<lparr>content = sample_archive, pos = 283\<rparr>)"
proof -
  note step = loop_body_sample_archive
  have stop: "loop_body decode_ascii \<lparr>content = sample_archive, pos = 279\<rparr> =
      Break [] \<lparr>content = sample_archive, pos = 283\<rparr>"
    using loop_body_short_slot [of "\<lparr>content = sample_archive, pos = 279\<rparr>" decode_ascii]
    by (simp add: sample_archive_def sample_length)
  show ?thesis
    by (simp add: read_records_Continue [OF step] read_records_Break [OF stop])
qed

lemma length_sample_archive: "length sample_archive = 283"
  by (simp add: sample_archive_def sample_length)

lemma loop_passes_sample_archive:
  "loop_passes decode_ascii \<lparr>content = sample_archive, pos = 16\<rparr> = 2"
proof -
  have stop: "loop_body decode_ascii \<lparr>content = sample_archive, pos = 279\<rparr> =
      Break [] \<lparr>content = sample_archive, pos = 283\<rparr>"
    using loop_body_short_slot [of "\<lparr>content = sample_archive, pos = 279\<rparr>" decode_ascii]
    by (simp add: sample_archive_def sample_length)
  show ?thesis
    by (simp add: loop_passes_Continue [OF loop_body_sample_archive] loop_passes_Break [OF stop])
qed

lemma loop_body_second_record:
  "loop_body decode_ascii \<lparr>content = sample_two_records, pos = 280\<rparr> =
     Continue (str_of ''a.bin'', 280, 3) \<lparr>content = sample_two_records, pos = 543\<rparr>"
proof -
  let ?f = "\<lparr>content = sample_two_records, pos = 280\<rparr>"
  have t: "drop 280 sample_two_records = sample_record @ [1, 2, 3]"
    by (simp add: sample_two_records_def sample_tail)
  have len: "length sample_two_records = 547"
    by (simp add: sample_two_records_def sample_length sample_record_def bytes_of_simps)
  have slot: "take 256 (drop 280 sample_two_records) = bytes_of ''a.bin'' @ [0] @ replicate 250 0"
    unfolding t by (simp add: sample_record_def bytes_of_simps)
  have name: "read_cstring decode_ascii (take 256 (drop 280 sample_two_records)) = str_of ''a.bin''"
    unfolding slot read_cstring_takeWhile
    by (simp add: bytes_of_simps str_of_simps decode_ascii_def)
  have d: "drop (280 + k) sample_two_records = drop k (sample_record @ [1, 2, 3])" for k
    using t by (metis add.commute drop_drop)
  have o: "le_u32 (take 4 (drop (280 + 256) sample_two_records)) = 280"
    unfolding d by (simp add: sample_record_def bytes_of_simps le_u32_def)
  have z: "le_u32 (take 4 (drop (280 + 260) sample_two_records)) = 3"
    unfolding d by (simp add: sample_record_def bytes_of_simps le_u32_def)
  have u: "take 4 (drop (280 + 264) sample_two_records) = [1, 2, 3]"
    unfolding d by (simp add: sample_record_def bytes_of_simps)
  have ne: "[1, 2, 3] \<noteq> UEND" by (simp add: UEND_def bytes_of_simps)
  from loop_body_record [of ?f decode_ascii] name o z u ne len valid_a_bin
  show ?thesis by simp
qed

subsection \<open>Short reads in the directory loop\<close>

text \<open>
  Claim C2. The directory loop never raises on a short read. Whatever the archive, the
  cursor and the entries collected so far, the loop returns normally with those entries
  followed by the ones it adds; when fewer than 256 bytes are left for the name slot, or
  the slot is there with a valid name and fewer than 8 bytes are left for the offset/size
  pair, it returns exactly the entries collected so far. Cutting the archive short at any
  length \<open>n\<close> gives a prefix of the entries of the whole archive.
\<close>

theorem read_records_short_read:
  "(\<exists>es lg f'. read_records dec f acc = Inr (acc @ es, lg, f'))
   \<and> (length (content f) < pos f + 256 \<longrightarrow>
        (\<exists>f'. read_records dec f acc = Inr (acc, [], f')))
   \<and> (pos f + 256 \<le> length (content f) \<and> length (content f) < pos f + 264
        \<and> looks_like_valid_path (read_cstring dec (take 256 (drop (pos f) (content f)))) \<longrightarrow>
        (\<exists>f'. read_records dec f acc = Inr (acc, [], f')))
   \<and> (\<exists>es_t lg_t f_t es lg f'.
          read_records dec (f\<lparr>content := take n (content f)\<rparr>) acc = Inr (es_t, lg_t, f_t)
          \<and> read_records dec f acc = Inr (es, lg, f')
          \<and> prefix acc es_t \<and> prefix es_t es)"
proof (intro conjI impI)
  show "\<exists>es lg f'. read_records dec f acc = Inr (acc @ es, lg, f')"
    using read_records_result [of dec f acc] by blast
next
  assume "length (content f) < pos f + 256"
  from loop_body_short_slot [OF this, of dec]
  show "\<exists>f'. read_records dec f acc = Inr (acc, [], f')"
    by (simp add: read_records_Break)
next
  assume "pos f + 256 \<le> length (content f) \<and> length (content f) < pos f + 264
        \<and> looks_like_valid_path (read_cstring dec (take 256 (drop (pos f) (content f))))"
  then have "loop_body dec f = Break [] (f\<lparr>pos := length (content f)\<rparr>)"
    using loop_body_short_pair [of f dec] by blast
  then show "\<exists>f'. read_records dec f acc = Inr (acc, [], f')"
    by (simp add: read_records_Break)
next
  let ?t = "f\<lparr>content := take n (content f)\<rparr>"
  from read_records_result [of dec ?t acc] obtain es_t lg_t f_t where
    t: "read_records dec ?t acc = Inr (acc @ es_t, lg_t, f_t)" by blast
  from read_records_result [of dec f acc] obtain es lg f' where
    r: "read_records dec f acc = Inr (acc @ es, lg, f')" by blast
  from read_records_truncated [OF t r] have "prefix (acc @ es_t) (acc @ es)" .
  with t r show "\<exists>es_t lg_t f_t es lg f'.
          read_records dec ?t acc = Inr (es_t, lg_t, f_t)
          \<and> read_records dec f acc = Inr (es, lg, f')
          \<and> prefix acc es_t \<and> prefix es_t es"
    by (metis prefixI)
qed

theorem read_records_short_read_witness:
  "(\<exists>f'. read_records decode_ascii \<lparr>content = take 100 sample_archive, pos = 16\<rparr>
            [(str_of ''x.dat'', 1, 2)] = Inr ([(str_of ''x.dat'', 1, 2)], [], f'))
   \<and> (\<exists>f'. read_records decode_ascii \<lparr>content = take 275 sample_archive, pos = 16\<rparr>
            [(str_of ''x.dat'', 1, 2)] = Inr ([(str_of ''x.dat'', 1, 2)], [], f'))"
proof -
  have slot: "take 256 (drop 16 (take 275 sample_archive)) = take 256 (drop 16 sample_archive)"
    by (simp add: take_drop_take)
  have "looks_like_valid_path
          (read_cstring decode_ascii (take 256 (drop 16 (take 275 sample_archive))))"
    unfolding slot by (simp add: sample_archive_def sample_name valid_a_bin)
  then show ?thesis
    using read_records_short_read
        [of decode_ascii "\<lparr>content = take 100 sample_archive, pos = 16\<rparr>" "[(str_of ''x.dat'', 1, 2)]" 0]
      read_records_short_read
        [of decode_ascii "\<lparr>content = take 275 sample_archive, pos = 16\<rparr>" "[(str_of ''x.dat'', 1, 2)]" 0]
    by (simp add: sample_archive_def sample_length)
qed

subsection \<open>Termination of the directory loop\<close>

text \<open>
  Claim C9, as amended. The directory loop terminates on every archive: a pass that does
  not leave the loop keeps the archive, moves the cursor forward by at least 260 and at most
  268 bytes and leaves it inside the archive. The passes that do not leave the loop, one
  per entry appended, number at most the bytes from the cursor to the end divided by 260,
  and the number of passes, the one that leaves the loop included, is that number plus one:
  at most the archive length divided by 260, plus one.
\<close>

theorem read_records_terminates:
  "(loop_body dec f = Continue e f1 \<longrightarrow>
      content f1 = content f \<and> pos f + 260 \<le> pos f1 \<and> pos f1 \<le> pos f + 268
      \<and> pos f1 \<le> length (content f))
   \<and> (\<exists>es lg f'. read_records dec f acc = Inr (acc @ es, lg, f')
         \<and> length es \<le> (length (content f) - pos f) div 260
         \<and> loop_passes dec f = length es + 1)
   \<and> loop_passes dec f \<le> (length (content f) - pos f) div 260 + 1
   \<and> (\<exists>es lg f'. parse_directory dec f = Inr (es, lg, f')
         \<and> length es \<le> length (content f) div 260
         \<and> loop_passes dec (f_seek START_OFFSET f) = length es + 1)
   \<and> loop_passes dec (f_seek START_OFFSET f) \<le> length (content f) div 260 + 1"
proof -
  have step: "content f1 = content f \<and> pos f + 260 \<le> pos f1 \<and> pos f1 \<le> pos f + 268
      \<and> pos f1 \<le> length (content f)" if "loop_body dec f = Continue e f1"
    using loop_body_Continue [OF that] loop_body_Continue_inside [OF that] by simp
  from read_records_passes [of dec f acc] obtain es lg f' where
    r: "read_records dec f acc = Inr (acc @ es, lg, f')"
    and n: "loop_passes dec f = Suc (length es)"
    and b: "length es * 260 \<le> length (content f) - pos f" by blast
  from b have d: "length es \<le> (length (content f) - pos f) div 260"
    by (simp add: less_eq_div_iff_mult_less_eq)
  from read_records_passes [of dec "f_seek START_OFFSET f" "[]"] obtain es0 lg0 f0 where
    r0: "read_records dec (f_seek START_OFFSET f) [] = Inr (es0, lg0, f0)"
    and n0: "loop_passes dec (f_seek START_OFFSET f) = Suc (length es0)"
    and b0: "length es0 * 260 \<le> length (content f) - START_OFFSET"
    by (auto simp: f_seek_def)
  from b0 have "length es0 * 260 \<le> length (content f)" by simp
  then have d0: "length es0 \<le> length (content f) div 260"
    by (simp add: less_eq_div_iff_mult_less_eq)
  from r0 have p0: "parse_directory dec f = Inr (es0, lg0, f0)"
    by (simp add: parse_directory_def)
  have a: "\<exists>es lg f'. read_records dec f acc = Inr (acc @ es, lg, f')
         \<and> length es \<le> (length (content f) - pos f) div 260
         \<and> loop_passes dec f = length es + 1"
    using r d n by auto
  have a0: "\<exists>es lg f'. parse_directory dec f = Inr (es, lg, f')
         \<and> length es \<le> length (content f) div 260
         \<and> loop_passes dec (f_seek START_OFFSET f) = length es + 1"
    using p0 d0 n0 by auto
  have c: "loop_passes dec f \<le> (length (content f) - pos f) div 260 + 1"
    using n d by simp
  have c0: "loop_passes dec (f_seek START_OFFSET f) \<le> length (content f) div 260 + 1"
    using n0 d0 by simp
  from step a a0 c c0 show ?thesis by blast
qed

theorem read_records_terminates_witness:
  "loop_body decode_ascii \<lparr>content = sample_archive, pos = 16\<rparr> =
     Continue (str_of ''a.bin'', 280, 3) \<lparr>content = sample_archive, pos = 279\<rparr>
   \<and> (16::nat) + 260 \<le> 279 \<and> (279::nat) \<le> length sample_archive
   \<and> loop_passes decode_ascii \<lparr>content = sample_archive, pos = 16\<rparr> \<le> (283 - 16) div 260 + 1"
proof -
  note step = loop_body_sample_archive
  with read_records_terminates [of decode_ascii "\<lparr>content = sample_archive, pos = 16\<rparr>"
      "(str_of ''a.bin'', 280, 3)" "\<lparr>content = sample_archive, pos = 279\<rparr>" "[]"]
  show ?thesis by (simp add: length_sample_archive)
qed

text \<open>
  Claim C9 as stated bounds the number of passes by the archive length divided by 260. The
  pass in which the loop is left is a pass as well: on the sample archive of 283 bytes the
  body is entered twice, once for the record and once for the short read after it, and 283
  divided by 260 is 1.
\<close>

theorem read_records_terminates_counterexample:
  "loop_passes decode_ascii \<lparr>content = sample_archive, pos = 16\<rparr> = 2
   \<and> length sample_archive div 260 = 1
   \<and> \<not> loop_passes decode_ascii \<lparr>content = sample_archive, pos = 16\<rparr>
         \<le> length sample_archive div 260"
  by (simp add: loop_passes_sample_archive length_sample_archive)

subsection \<open>The optional \<^verbatim>\<open>UEND\<close> tag\<close>

text \<open>
  Claim C7. After the offset/size pair of a parsed record the loop reads up to four more
  bytes. If they are \<^verbatim>\<open>UEND\<close> they are consumed and the cursor stands 268 bytes after the
  record's start; otherwise the cursor is moved back by four bytes from where the read left
  it. The next pass starts at that cursor, so whenever a next slot is there in full, and in
  particular whenever a next record is parsed, it starts 268 bytes after the record's start
  in the first case and 264 bytes after it in the second. When fewer than four bytes were
  left after the pair, the next pass finds no full slot and leaves the loop.
\<close>

theorem loop_body_uend:
  assumes "loop_body dec f = Continue e f1"
  shows "(take 4 (drop (pos f + 264) (content f)) = UEND \<longrightarrow> pos f1 = pos f + 268)
    \<and> (take 4 (drop (pos f + 264) (content f)) \<noteq> UEND \<longrightarrow>
         pos f1 + 4 = pos f + 264 + length (take 4 (drop (pos f + 264) (content f))))
    \<and> (pos f + 268 \<le> length (content f) \<and> take 4 (drop (pos f + 264) (content f)) \<noteq> UEND \<longrightarrow>
         pos f1 = pos f + 264)
    \<and> (pos f1 + 256 \<le> length (content f) \<and> take 4 (drop (pos f + 264) (content f)) \<noteq> UEND \<longrightarrow>
         pos f1 = pos f + 264)
    \<and> (loop_body dec f1 = Continue e' f2 \<longrightarrow>
         pos f1 = (if take 4 (drop (pos f + 264) (content f)) = UEND then pos f + 268
                   else pos f + 264))
    \<and> (length (content f) < pos f + 268 \<longrightarrow> (\<exists>f2. loop_body dec f1 = Break [] f2))
    \<and> read_records dec f acc = read_records dec f1 (acc @ [e])"
proof -
  let ?uend = "take 4 (drop (pos f + 264) (content f))"
  note f1 = loop_body_Continue_record(3) [OF assms]
  note adv = loop_body_Continue [OF assms]
  have consumed: "pos f1 = pos f + 268" if "?uend = UEND"
    using that f1 by simp
  have rewound: "pos f1 + 4 = pos f + 264 + length ?uend" if "?uend \<noteq> UEND"
    using that f1 adv(4) by (simp add: min.commute)
  have full: "pos f1 = pos f + 264" if "pos f + 268 \<le> length (content f)" and "?uend \<noteq> UEND"
  proof -
    from that(1) have "length ?uend = 4" by simp
    with rewound [OF that(2)] show ?thesis by simp
  qed
  have slot: "pos f1 = pos f + 264" if "pos f1 + 256 \<le> length (content f)" and "?uend \<noteq> UEND"
  proof -
    from that(1) adv(2) have "pos f + 268 \<le> length (content f)" by simp
    from full [OF this that(2)] show ?thesis .
  qed
  have nxt: "pos f1 = (if ?uend = UEND then pos f + 268 else pos f + 264)"
    if "loop_body dec f1 = Continue e' f2"
  proof (cases "?uend = UEND")
    case True
    with consumed show ?thesis by simp
  next
    case False
    from loop_body_Continue(4) [OF that] adv(1) have "pos f1 + 256 \<le> length (content f)"
      by simp
    from slot [OF this False] False show ?thesis by simp
  qed
  have short: "\<exists>f2. loop_body dec f1 = Break [] f2" if "length (content f) < pos f + 268"
  proof -
    from that adv(1,2) have "length (content f1) < pos f1 + 256" by simp
    from loop_body_short_slot [OF this] show ?thesis by blast
  qed
  have cont: "read_records dec f acc = read_records dec f1 (acc @ [e])"
    by (rule read_records_Continue [OF assms])
  from consumed rewound full slot nxt short cont show ?thesis by blast
qed

theorem loop_body_uend_witness:
  "loop_body decode_ascii \<lparr>content = sample_two_records, pos = 16\<rparr> =
     Continue (str_of ''a.bin'', 280, 3) \<lparr>content = sample_two_records, pos = 280\<rparr>
   \<and> loop_body decode_ascii \<lparr>content = sample_two_records, pos = 280\<rparr> =
     Continue (str_of ''a.bin'', 280, 3) \<lparr>content = sample_two_records, pos = 543\<rparr>
   \<and> take 4 (drop (16 + 264) sample_two_records) \<noteq> UEND
   \<and> pos \<lparr>content = sample_two_records, pos = 280\<rparr> = 16 + 264
   \<and> loop_body decode_ascii \<lparr>content = sample_with (UEND @ [1, 2, 3]), pos = 16\<rparr> =
     Continue (str_of ''a.bin'', 280, 3) \<lparr>content = sample_with (UEND @ [1, 2, 3]), pos = 284\<rparr>
   \<and> take 4 (drop (16 + 264) (sample_with (UEND @ [1, 2, 3]))) = UEND
   \<and> pos \<lparr>content = sample_with (UEND @ [1, 2, 3]), pos = 284\<rparr> = 16 + 268"
proof -
  have tl: "take 4 (sample_record @ [1, 2, 3]) \<noteq> UEND"
    by (simp add: sample_record_def bytes_of_simps UEND_def)
  have m: "min 4 (length (sample_record @ [1, 2, 3])) = 4"
    by (simp add: sample_record_def bytes_of_simps)
  have a: "loop_body decode_ascii \<lparr>content = sample_two_records, pos = 16\<rparr> =
     Continue (str_of ''a.bin'', 280, 3) \<lparr>content = sample_two_records, pos = 280\<rparr>"
    using loop_body_sample [of "sample_record @ [1, 2, 3]"] tl m
    by (simp add: sample_two_records_def)
  note b = loop_body_second_record
  have c: "take 4 (drop (16 + 264) sample_two_records) \<noteq> UEND"
    using tl by (simp add: sample_two_records_def sample_tail)
  have a': "loop_body decode_ascii \<lparr>content = sample_with (UEND @ [1, 2, 3]), pos = 16\<rparr> =
     Continue (str_of ''a.bin'', 280, 3) \<lparr>content = sample_with (UEND @ [1, 2, 3]), pos = 284\<rparr>"
    using loop_body_sample [of "UEND @ [1, 2, 3]"] by (simp add: length_UEND)
  have c': "take 4 (drop (16 + 264) (sample_with (UEND @ [1, 2, 3]))) = UEND"
    by (simp add: sample_tail length_UEND)
  from loop_body_uend [OF a] loop_body_uend [OF a'] a b c a' c'
  show ?thesis by simp
qed

subsection \<open>The names in the directory table\<close>

text \<open>
  Claim C10. Every entry of the table that parsing returns has a name which the path
  validator accepts: it is not empty, has at least three characters, does not start with
  \<^verbatim>\<open>BM\<close> and holds no NUL character. The name is the decoding of a 256-byte slot of the
  archive cut at its first zero byte, so the bytes handed to the decoder hold no zero byte.
\<close>

theorem parse_directory_names_valid:
  assumes "parse_directory dec f = Inr (es, lg, f')" and "(name, offset, size') \<in> set es"
  shows "looks_like_valid_path name \<and> name \<noteq> [] \<and> 3 \<le> length name
    \<and> take 2 name \<noteq> str_of ''BM'' \<and> 0 \<notin> set name
    \<and> (\<exists>p. START_OFFSET \<le> p \<and> p + 264 \<le> length (content f)
          \<and> name = dec (takeWhile (\<lambda>b. b \<noteq> 0) (take 256 (drop p (content f))))
          \<and> 0 \<notin> set (takeWhile (\<lambda>b. b \<noteq> 0) (take 256 (drop p (content f)))))"
proof -
  from assms(1) have r: "read_records dec (f_seek START_OFFSET f) [] = Inr (es, lg, f')"
    by (simp add: parse_directory_def)
  from read_records_result [of dec "f_seek START_OFFSET f" "[]"] r assms(2)
  have valid: "looks_like_valid_path name" by auto
  then have shape: "name \<noteq> [] \<and> 3 \<le> length name \<and> take 2 name \<noteq> str_of ''BM'' \<and> 0 \<notin> set name"
    by (auto simp: looks_like_valid_path_def split: if_splits)
  from read_records_entries [OF r assms(2)] obtain p where
    "START_OFFSET \<le> p" "p + 264 \<le> length (content f)"
    "name = read_cstring dec (take 256 (drop p (content f)))"
    by (auto simp: f_seek_def)
  moreover have "0 \<notin> set (takeWhile (\<lambda>b. b \<noteq> 0) xs)" for xs :: pybytes
    by (induction xs) auto
  ultimately show ?thesis
    using valid shape by (auto simp: read_cstring_takeWhile)
qed

theorem parse_directory_names_valid_witness:
  "parse_directory decode_ascii (open_rb sample_archive) =
     Inr ([(str_of ''a.bin'', 280, 3)], [], \<lparr>content = sample_archive, pos = 283\<rparr>)
   \<and> looks_like_valid_path (str_of ''a.bin'') \<and> 0 \<notin> set (str_of ''a.bin'')"
proof -
  have p: "parse_directory decode_ascii (open_rb sample_archive) =
     Inr ([(str_of ''a.bin'', 280, 3)], [], \<lparr>content = sample_archive, pos = 283\<rparr>)"
    using read_records_sample [of "[]"]
    by (simp add: parse_directory_def open_rb_def f_seek_def START_OFFSET_def)
  from parse_directory_names_valid [OF p, of "str_of ''a.bin''" 280 3] p
  show ?thesis by simp
qed


subsection \<open>The magic check\<close>

lemma bytes_find_ge: "- 1 \<le> bytes_find hay needle"
  by (induction hay) (auto simp: Let_def)

lemma take_eq_prefix: "take (length xs) ys = xs \<longleftrightarrow> prefix xs ys"
proof
  assume "take (length xs) ys = xs"
  then show "prefix xs ys" by (metis take_is_prefix)
next
  assume "prefix xs ys"
  then show "take (length xs) ys = xs" by (auto simp: prefix_def)
qed

lemma bytes_find_sublist: "bytes_find hay needle \<noteq> - 1 \<longleftrightarrow> sublist needle hay"
proof (induction hay)
  case Nil
  then show ?case by simp
next
  case (Cons b hay)
  show ?case
  proof (cases "take (length needle) (b # hay) = needle")
    case True
    with take_eq_prefix [of needle "b # hay"] have "prefix needle (b # hay)" by blast
    then have "sublist needle (b # hay)" by (rule prefix_imp_sublist)
    with True show ?thesis by simp
  next
    case False
    with take_eq_prefix [of needle "b # hay"] have "\<not> prefix needle (b # hay)" by blast
    then have "sublist needle (b # hay) \<longleftrightarrow> sublist needle hay"
      by (simp add: sublist_Cons_right)
    moreover have "bytes_find (b # hay) needle \<noteq> - 1 \<longleftrightarrow> bytes_find hay needle \<noteq> - 1"
      using False bytes_find_ge [of hay needle] by (auto simp: Let_def)
    ultimately show ?thesis using Cons.IH by simp
  qed
qed

lemma bytes_contains_sublist: "bytes_contains needle hay \<longleftrightarrow> sublist needle hay"
  by (simp add: bytes_contains_def bytes_find_sublist)

lemma length_HEADER_MAGIC: "length HEADER_MAGIC = 10"
  by (simp add: HEADER_MAGIC_def bytes_of_def)

lemma magic_at_start: "take 10 input = HEADER_MAGIC \<Longrightarrow> sublist HEADER_MAGIC (take 64 input)"
proof -
  assume m: "take 10 input = HEADER_MAGIC"
  have "take 10 (take 64 input) = take 10 input" by simp
  with m have "take (length HEADER_MAGIC) (take 64 input) = HEADER_MAGIC"
    by (simp add: length_HEADER_MAGIC)
  with take_eq_prefix [of HEADER_MAGIC "take 64 input"] have "prefix HEADER_MAGIC (take 64 input)"
    by blast
  then show ?thesis by (rule prefix_imp_sublist)
qed

lemma locate_magic_absent:
  assumes "\<not> sublist HEADER_MAGIC (take 64 input)"
  shows "locate_magic (open_rb input) = Inl (SystemExit magic_not_found)"
proof -
  from assms magic_at_start have "take 10 input \<noteq> HEADER_MAGIC" by blast
  moreover from assms have "\<not> bytes_contains HEADER_MAGIC (take 64 input)"
    by (simp add: bytes_contains_sublist)
  ultimately show ?thesis
    by (simp add: locate_magic_def open_rb_def f_read_def f_seek_def Let_def length_HEADER_MAGIC)
qed

lemma locate_magic_present:
  assumes "sublist HEADER_MAGIC (take 64 input)"
  shows "\<exists>f. locate_magic (open_rb input) = Inr f \<and> content f = input"
proof -
  from assms have c: "bytes_contains HEADER_MAGIC (take 64 input)"
    by (simp add: bytes_contains_sublist)
  then have "bytes_find (take 64 input) HEADER_MAGIC \<noteq> - 1"
    by (simp add: bytes_contains_def)
  then obtain i where "bytes_index (take 64 input) HEADER_MAGIC = Inr i"
    by (simp add: bytes_index_def Let_def)
  with c show ?thesis
    by (simp add: locate_magic_def open_rb_def f_read_def f_seek_def Let_def length_HEADER_MAGIC)
qed

lemma f_seek_start: "content f = input \<Longrightarrow> f_seek p f = \<lparr>content = input, pos = p\<rparr>"
  by (cases f) (simp add: f_seek_def)

subsection \<open>An archive with one record\<close>

lemma sanitize_a_bin: "sanitize_filename pf (str_of ''a.bin'') = str_of ''a.bin''"
  by (cases pf) (simp_all add: sanitize_filename_def str_of_simps re_class_def)

lemma read_cstring_terminated:
  assumes "0 \<notin> set s" and "take n chunk = s @ [0]"
  shows "read_cstring dec chunk = dec s"
proof -
  have "chunk = take n chunk @ drop n chunk" by simp
  with assms(2) have "chunk = s @ 0 # drop n chunk" by simp
  then have "takeWhile (\<lambda>b. b \<noteq> 0) chunk = takeWhile (\<lambda>b. b \<noteq> 0) (s @ 0 # drop n chunk)"
    by simp
  also have "\<dots> = s" using assms(1) by (induction s) auto
  finally show ?thesis by (simp add: read_cstring_takeWhile)
qed

lemma parse_directory_single:
  assumes slot: "take 6 (drop 16 arch) = bytes_of ''a.bin'' @ [0]"
    and room: "280 \<le> length arch"
    and stop: "length arch < (if take 4 (drop 280 arch) = UEND then 284 else 280) + 264
        \<or> \<not> looks_like_valid_path (read_cstring dec
              (take 256 (drop (if take 4 (drop 280 arch) = UEND then 284 else 280) arch)))"
    and dec: "dec (bytes_of ''a.bin'') = str_of ''a.bin''"
    and f: "content f = arch"
  shows "\<exists>lg f'. parse_directory dec f =
            Inr ([(str_of ''a.bin'', le_u32 (take 4 (drop 272 arch)), le_u32 (take 4 (drop 276 arch)))],
                 lg, f')
          \<and> content f' = arch"
proof -
  let ?f0 = "\<lparr>content = arch, pos = 16\<rparr>"
  let ?e = "(str_of ''a.bin'', le_u32 (take 4 (drop 272 arch)), le_u32 (take 4 (drop 276 arch)))"
  let ?q = "if take 4 (drop 280 arch) = UEND then 284 else 280 :: nat"
  have "take 6 (take 256 (drop 16 arch)) = bytes_of ''a.bin'' @ [0]"
    using slot by simp
  moreover have "0 \<notin> set (bytes_of ''a.bin'')"
    by (simp add: bytes_of_simps)
  ultimately have name: "read_cstring dec (take 256 (drop 16 arch)) = str_of ''a.bin''"
    using read_cstring_terminated [of "bytes_of ''a.bin''" 6 "take 256 (drop 16 arch)" dec] dec
    by simp
  define f1 where "f1 = ?f0\<lparr>pos := (if take 4 (drop 280 arch) = UEND then 284
                    else 276 + min 4 (length arch - 280))\<rparr>"
  have step: "loop_body dec ?f0 = Continue ?e f1"
    using loop_body_record [of ?f0 dec] room by (simp add: name valid_a_bin f1_def)
  have no_more: "loop_body dec f1 \<noteq> Continue e' f2" for e' f2
  proof
    assume c: "loop_body dec f1 = Continue e' f2"
    from loop_body_Continue(4) [OF c] have r: "pos f1 + 264 \<le> length arch"
      by (simp add: f1_def)
    then have "pos f1 = ?q" by (auto simp: f1_def min_def split: if_splits)
    with r loop_body_Continue_record(1) [OF c] stop show False by (simp add: f1_def)
  qed
  from loop_body_outcome [of dec f1] no_more obtain lg f' where
    brk: "loop_body dec f1 = Break lg f'" and c: "content f' = arch"
    by (auto simp: f1_def)
  have "read_records dec ?f0 [] = Inr ([?e], lg, f')"
    by (simp only: read_records_Continue [OF step] append_Nil read_records_Break [OF brk])
  then have "parse_directory dec f = Inr ([?e], lg, f')"
    by (simp add: parse_directory_def f_seek_start [OF f] START_OFFSET_def)
  with c show ?thesis by blast
qed

lemma extract_entries_one:
  assumes "offset \<noteq> 0" and "size' \<noteq> 0" and "sanitize_filename (plat ev) name \<noteq> []"
    and "mk_fault ev (path_dirname ev (path_join ev out_dir (sanitize_filename (plat ev) name))) w = None"
    and "wr_fault ev (path_join ev out_dir (sanitize_filename (plat ev) name))
           (take size' (drop offset (content f)))
           (w\<lparr>dirs := insert (path_dirname ev (path_join ev out_dir (sanitize_filename (plat ev) name)))
                           (dirs w)\<rparr>) = None"
  shows "extract_entries ev out_dir f [(name, offset, size')] w =
     (None, w\<lparr>dirs := insert (path_dirname ev (path_join ev out_dir (sanitize_filename (plat ev) name)))
                           (dirs w),
               files := (files w)(path_join ev out_dir (sanitize_filename (plat ev) name)
                           \<mapsto> take size' (drop offset (content f))),
               stdout := stdout w @ [Extracted (sanitize_filename (plat ev) name) size']\<rparr>)"
  using assms
  by (simp add: Let_def os_makedirs_def write_file_def f_seek_def f_read_def py_print_def)

lemma extract_file_single:
  assumes magic: "take 10 arch = HEADER_MAGIC"
    and slot: "take 6 (drop 16 arch) = bytes_of ''a.bin'' @ [0]"
    and room: "280 \<le> length arch"
    and stop: "length arch < (if take 4 (drop 280 arch) = UEND then 284 else 280) + 264
        \<or> \<not> looks_like_valid_path (read_cstring (decode ev)
              (take 256 (drop (if take 4 (drop 280 arch) = UEND then 284 else 280) arch)))"
    and dec: "decode ev (bytes_of ''a.bin'') = str_of ''a.bin''"
    and mk: "mk_fault ev out_dir w = None"
  shows "\<exists>lg f'. content f' = arch \<and>
     extract_file ev arch out_dir w =
       extract_entries ev out_dir f'
         [(str_of ''a.bin'', le_u32 (take 4 (drop 272 arch)), le_u32 (take 4 (drop 276 arch)))]
         (w\<lparr>dirs := insert out_dir (dirs w), stdout := stdout w @ lg @ [Found 1]\<rparr>)"
proof -
  from locate_magic_present [OF magic_at_start [OF magic]] obtain f where
    lm: "locate_magic (open_rb arch) = Inr f" and c: "content f = arch" by blast
  from parse_directory_single [OF slot room stop dec c] obtain lg f' where
    p: "parse_directory (decode ev) f =
          Inr ([(str_of ''a.bin'', le_u32 (take 4 (drop 272 arch)), le_u32 (take 4 (drop 276 arch)))],
               lg, f')"
    and c': "content f' = arch" by blast
  have "extract_file ev arch out_dir w =
       extract_entries ev out_dir f'
         [(str_of ''a.bin'', le_u32 (take 4 (drop 272 arch)), le_u32 (take 4 (drop 276 arch)))]
         (w\<lparr>dirs := insert out_dir (dirs w), stdout := stdout w @ lg @ [Found 1]\<rparr>)"
    by (simp add: extract_file_def os_makedirs_def mk lm p py_print_def)
  with c' show ?thesis by blast
qed

lemma extract_file_single_short:
  assumes "take 10 arch = HEADER_MAGIC"
    and "take 6 (drop 16 arch) = bytes_of ''a.bin'' @ [0]"
    and "280 \<le> length arch" and short: "length arch < 544"
    and "decode ev (bytes_of ''a.bin'') = str_of ''a.bin''"
    and "mk_fault ev out_dir w = None"
  shows "\<exists>lg f'. content f' = arch \<and>
     extract_file ev arch out_dir w =
       extract_entries ev out_dir f'
         [(str_of ''a.bin'', le_u32 (take 4 (drop 272 arch)), le_u32 (take 4 (drop 276 arch)))]
         (w\<lparr>dirs := insert out_dir (dirs w), stdout := stdout w @ lg @ [Found 1]\<rparr>)"
proof (rule extract_file_single [OF assms(1-3) _ assms(5,6)])
  from short
  show "length arch < (if take 4 (drop 280 arch) = UEND then 284 else 280) + 264
        \<or> \<not> looks_like_valid_path (read_cstring (decode ev)
              (take 256 (drop (if take 4 (drop 280 arch) = UEND then 284 else 280) arch)))"
    by simp
qed

lemma extract_entries_skip_empty:
  "off = 0 \<or> sz = 0 \<Longrightarrow>
     extract_entries ev d f [(n, off, sz)] w = (None, py_print (SkipEmpty n) w)"
  by auto

lemmas sample_all_defs = sample_archive_def sample_with_def sample_zero_size_def sample_zero_offset_def
  sample_header_def sample_record_def HEADER_MAGIC_def bytes_of_simps

lemma sample_archive_facts:
  "take 10 sample_archive = HEADER_MAGIC"
  "take 6 (drop 16 sample_archive) = bytes_of ''a.bin'' @ [0]"
  "length sample_archive = 283"
  "le_u32 (take 4 (drop 272 sample_archive)) = 280"
  "le_u32 (take 4 (drop 276 sample_archive)) = 3"
  "take 4 (drop 280 sample_archive) \<noteq> UEND"
  "take 3 (drop 280 sample_archive) = [1, 2, 3]"
  by (simp_all add: sample_all_defs le_u32_def UEND_def)

lemma sample_zero_size_facts:
  "take 10 sample_zero_size = HEADER_MAGIC"
  "take 6 (drop 16 sample_zero_size) = bytes_of ''a.bin'' @ [0]"
  "length sample_zero_size = 280"
  "le_u32 (take 4 (drop 272 sample_zero_size)) = 280"
  "le_u32 (take 4 (drop 276 sample_zero_size)) = 0"
  "take 4 (drop 280 sample_zero_size) \<noteq> UEND"
  by (simp_all add: sample_all_defs le_u32_def UEND_def)

lemma sample_zero_offset_facts:
  "take 10 sample_zero_offset = HEADER_MAGIC"
  "take 6 (drop 16 sample_zero_offset) = bytes_of ''a.bin'' @ [0]"
  "length sample_zero_offset = 280"
  "le_u32 (take 4 (drop 272 sample_zero_offset)) = 0"
  "le_u32 (take 4 (drop 276 sample_zero_offset)) = 3"
  "take 4 (drop 280 sample_zero_offset) \<noteq> UEND"
  by (simp_all add: sample_all_defs le_u32_def UEND_def)

lemma sample_env_simps:
  "plat sample_env = Posix" "decode sample_env = decode_ascii"
  "path_join sample_env = posix_join" "path_dirname sample_env = posix_dirname"
  "mk_fault sample_env p w = None" "wr_fault sample_env p d w = None"
  by (simp_all add: sample_env_def)

lemma sample_paths:
  "posix_join (str_of ''out'') (str_of ''a.bin'') = str_of ''out/a.bin''"
  "posix_join (str_of ''out'') (str_of ''b.bin'') = str_of ''out/b.bin''"
  "posix_dirname (str_of ''out/a.bin'') = str_of ''out''"
  "posix_dirname (str_of ''out/b.bin'') = str_of ''out''"
  by (simp_all add: posix_join_def posix_dirname_def str_of_simps)

lemma write_file_keeps_stdout: "stdout (snd (write_file ev p d w)) = stdout w"
  by (simp add: write_file_def split: option.splits prod.splits)

lemma extract_entries_no_abort:
  assumes mk: "\<forall>p w'. mk_fault ev p w' = None"
  shows "fst (extract_entries ev out_dir f entries w) = None
    \<and> length (stdout (snd (extract_entries ev out_dir f entries w))) =
        length (stdout w) + length entries"
proof (induction entries arbitrary: f w)
  case Nil
  then show ?case by simp
next
  case (Cons e rest)
  obtain name offset size' where e: "e = (name, offset, size')"
    by (cases e)
  let ?safe = "sanitize_filename (plat ev) name"
  let ?path = "path_join ev out_dir ?safe"
  let ?w1 = "w\<lparr>dirs := insert (path_dirname ev ?path) (dirs w)\<rparr>"
  have mk1: "os_makedirs ev (path_dirname ev ?path) w = Inr ?w1"
    using mk by (simp add: os_makedirs_def)
  obtain data f2 where rd: "f_read size' (f_seek offset f) = (data, f2)"
    by (cases "f_read size' (f_seek offset f)")
  obtain r w2 where wf: "write_file ev ?path data ?w1 = (r, w2)"
    by (cases "write_file ev ?path data ?w1")
  from write_file_keeps_stdout [of ev ?path data ?w1] wf
  have so: "stdout w2 = stdout w" by simp
  show ?case
  proof (cases "offset = 0 \<or> size' = 0")
    case True
    with Cons.IH [of f "py_print (SkipEmpty name) w"] show ?thesis
      by (simp add: e py_print_def)
  next
    case nonzero: False
    show ?thesis
    proof (cases "?safe = []")
      case True
      with nonzero Cons.IH [of f "py_print (SkipInvalid name) w"] show ?thesis
        by (simp add: e py_print_def)
    next
      case False
      show ?thesis
      proof (cases r)
        case None
        with nonzero False mk1 rd wf so
          Cons.IH [of f2 "py_print (Extracted ?safe size') w2"]
        show ?thesis by (simp add: e Let_def py_print_def)
      next
        case (Some errno)
        with nonzero False mk1 rd wf so
          Cons.IH [of f2 "py_print (Failed ?safe errno) w2"]
        show ?thesis by (simp add: e Let_def py_print_def)
      qed
    qed
  qed
qed

lemma sample_env_write_fails_simps:
  "plat sample_env_write_fails = Posix"
  "path_join sample_env_write_fails = posix_join"
  "path_dirname sample_env_write_fails = posix_dirname"
  "mk_fault sample_env_write_fails p w = None"
  "wr_fault sample_env_write_fails p d w = (if p = str_of ''out/a.bin'' then Some (13, None) else None)"
  by (simp_all add: sample_env_write_fails_def sample_env_def)

lemma sample_env_makedirs_fails_simps:
  "plat sample_env_makedirs_fails = Posix"
  "decode sample_env_makedirs_fails = decode_ascii"
  "path_join sample_env_makedirs_fails = posix_join"
  "path_dirname sample_env_makedirs_fails = posix_dirname"
  "mk_fault sample_env_makedirs_fails p w = (if stdout w = [] then None else Some 13)"
  by (simp_all add: sample_env_makedirs_fails_def sample_env_def)

lemma sanitize_b_bin: "sanitize_filename Posix (str_of ''b.bin'') = str_of ''b.bin''"
  by (simp add: sanitize_filename_def str_of_simps re_class_def)

lemma a_bin_nonempty: "str_of ''a.bin'' \<noteq> []" and b_bin_nonempty: "str_of ''b.bin'' \<noteq> []"
  by (simp_all add: str_of_simps)

lemma sample_payload:
  "f_read 3 (f_seek 280 \<lparr>content = sample_archive, pos = p\<rparr>) =
     ([1, 2, 3], \<lparr>content = sample_archive, pos = 283\<rparr>)"
  by (simp add: f_read_def f_seek_def Let_def sample_archive_facts)

subsection \<open>The magic check and the run\<close>

text \<open>
  Claim C6. When the first 64 bytes of the input do not contain the magic \<^verbatim>\<open>UNIONFILES\<close>,
  the run ends with an exception, writes no file and prints nothing; the exception is the
  \<^verbatim>\<open>SystemExit\<close> carrying the format message whenever the output directory could be
  created. When the magic stands anywhere in the first 64 bytes (offset 0 included) and the
  output directory could be created, the run goes on: the directory is parsed from offset
  16 and the run is the extraction loop over the parsed table.
\<close>

theorem extract_file_magic:
  "(\<not> sublist HEADER_MAGIC (take 64 input) \<longrightarrow>
      (\<exists>e. fst (extract_file ev input out_dir w) = Some e)
      \<and> files (snd (extract_file ev input out_dir w)) = files w
      \<and> stdout (snd (extract_file ev input out_dir w)) = stdout w
      \<and> (mk_fault ev out_dir w = None \<longrightarrow>
           fst (extract_file ev input out_dir w) = Some (SystemExit magic_not_found)))
   \<and> (sublist HEADER_MAGIC (take 64 input) \<and> mk_fault ev out_dir w = None \<longrightarrow>
        (\<exists>es lg f'.
           read_records (decode ev) \<lparr>content = input, pos = START_OFFSET\<rparr> [] = Inr (es, lg, f')
           \<and> extract_file ev input out_dir w =
               extract_entries ev out_dir f' es
                 (py_print (Found (length es))
                    (w\<lparr>dirs := insert out_dir (dirs w), stdout := stdout w @ lg\<rparr>))))
   \<and> (take 10 input = HEADER_MAGIC \<longrightarrow> sublist HEADER_MAGIC (take 64 input))"
proof (intro conjI impI)
  assume absent: "\<not> sublist HEADER_MAGIC (take 64 input)"
  note lm = locate_magic_absent [OF absent]
  show "\<exists>e. fst (extract_file ev input out_dir w) = Some e"
    by (simp add: extract_file_def os_makedirs_def lm split: option.split)
  show "files (snd (extract_file ev input out_dir w)) = files w"
    by (simp add: extract_file_def os_makedirs_def lm split: option.split)
  show "stdout (snd (extract_file ev input out_dir w)) = stdout w"
    by (simp add: extract_file_def os_makedirs_def lm split: option.split)
  show "fst (extract_file ev input out_dir w) = Some (SystemExit magic_not_found)"
    if "mk_fault ev out_dir w = None"
    using that by (simp add: extract_file_def os_makedirs_def lm)
next
  assume "sublist HEADER_MAGIC (take 64 input) \<and> mk_fault ev out_dir w = None"
  then have present: "sublist HEADER_MAGIC (take 64 input)" and mk: "mk_fault ev out_dir w = None"
    by simp_all
  from locate_magic_present [OF present] obtain f where
    lm: "locate_magic (open_rb input) = Inr f" and c: "content f = input" by blast
  from read_records_result [of "decode ev" "\<lparr>content = input, pos = START_OFFSET\<rparr>" "[]"]
  obtain es lg f' where
    r: "read_records (decode ev) \<lparr>content = input, pos = START_OFFSET\<rparr> [] = Inr (es, lg, f')"
    by auto
  then have "parse_directory (decode ev) f = Inr (es, lg, f')"
    by (simp add: parse_directory_def f_seek_start [OF c])
  then have "extract_file ev input out_dir w =
               extract_entries ev out_dir f' es
                 (py_print (Found (length es))
                    (w\<lparr>dirs := insert out_dir (dirs w), stdout := stdout w @ lg\<rparr>))"
    by (simp add: extract_file_def os_makedirs_def mk lm)
  with r show "\<exists>es lg f'.
           read_records (decode ev) \<lparr>content = input, pos = START_OFFSET\<rparr> [] = Inr (es, lg, f')
           \<and> extract_file ev input out_dir w =
               extract_entries ev out_dir f' es
                 (py_print (Found (length es))
                    (w\<lparr>dirs := insert out_dir (dirs w), stdout := stdout w @ lg\<rparr>))"
    by blast
next
  assume "take 10 input = HEADER_MAGIC"
  then show "sublist HEADER_MAGIC (take 64 input)" by (rule magic_at_start)
qed

theorem extract_file_magic_witness:
  "fst (extract_file sample_env (bytes_of ''RIFF'') (str_of ''out'') empty_world) =
     Some (SystemExit magic_not_found)
   \<and> files (snd (extract_file sample_env (bytes_of ''RIFF'') (str_of ''out'') empty_world)) = Map.empty
   \<and> sublist HEADER_MAGIC (take 64 sample_archive)"
proof -
  have "bytes_find (take 64 (bytes_of ''RIFF'')) HEADER_MAGIC = - 1"
    by (simp add: bytes_of_simps HEADER_MAGIC_def)
  then have "\<not> sublist HEADER_MAGIC (take 64 (bytes_of ''RIFF''))"
    using bytes_find_sublist [of "take 64 (bytes_of ''RIFF'')" HEADER_MAGIC] by simp
  with extract_file_magic [of "bytes_of ''RIFF''" sample_env "str_of ''out''" empty_world]
    extract_file_magic [of sample_archive sample_env "str_of ''out''" empty_world]
  show ?thesis
    by (simp add: sample_env_simps sample_archive_facts empty_world_def)
qed

subsection \<open>Round trip of one file\<close>

text \<open>
  Claim C1, as amended. Take an archive with the magic at offset 0, one directory record
  at offset 16 whose name slot starts with \<^verbatim>\<open>a.bin\<close> and a zero byte, little-endian offset
  \<open>off\<close> and size \<open>sz\<close>, both not zero, after which the directory ends (the next slot is
  cut short by the end of the file or does not hold a valid path), and \<open>sz\<close> bytes at
  offset \<open>off\<close>. If the codec decodes the ASCII bytes of \<^verbatim>\<open>a.bin\<close> to that text and no
  operating system call fails, the run ends normally and has written exactly one file,
  \<^verbatim>\<open>a.bin\<close> joined to the output directory, holding exactly those \<open>sz\<close> bytes.
\<close>

theorem extract_file_roundtrip:
  assumes magic: "take 10 arch = HEADER_MAGIC"
    and slot: "take 6 (drop 16 arch) = bytes_of ''a.bin'' @ [0]"
    and room: "280 \<le> length arch"
    and pair: "le_u32 (take 4 (drop 272 arch)) = off" "le_u32 (take 4 (drop 276 arch)) = sz"
    and stop: "length arch < (if take 4 (drop 280 arch) = UEND then 284 else 280) + 264
        \<or> \<not> looks_like_valid_path (read_cstring (decode ev)
              (take 256 (drop (if take 4 (drop 280 arch) = UEND then 284 else 280) arch)))"
    and payload: "off + sz \<le> length arch"
    and nonzero: "off \<noteq> 0" "sz \<noteq> 0"
    and dec: "decode ev (bytes_of ''a.bin'') = str_of ''a.bin''"
    and mk: "\<forall>p w'. mk_fault ev p w' = None"
    and wr: "\<forall>p d w'. wr_fault ev p d w' = None"
  shows "fst (extract_file ev arch out_dir w) = None
    \<and> files (snd (extract_file ev arch out_dir w)) =
        (files w)(path_join ev out_dir (str_of ''a.bin'') \<mapsto> take sz (drop off arch))
    \<and> length (take sz (drop off arch)) = sz"
proof -
  from mk have mk0: "mk_fault ev out_dir w = None" by simp
  from extract_file_single [OF magic slot room stop dec mk0] pair obtain lg f' where
    c: "content f' = arch"
    and x: "extract_file ev arch out_dir w =
       extract_entries ev out_dir f' [(str_of ''a.bin'', off, sz)]
         (w\<lparr>dirs := insert out_dir (dirs w), stdout := stdout w @ lg @ [Found 1]\<rparr>)"
    by auto
  have ne: "sanitize_filename (plat ev) (str_of ''a.bin'') \<noteq> []"
    unfolding sanitize_a_bin by (simp add: str_of_simps)
  from extract_entries_one [of off sz ev "str_of ''a.bin''" out_dir _ f', OF nonzero ne] mk wr
  have "extract_entries ev out_dir f' [(str_of ''a.bin'', off, sz)]
         (w\<lparr>dirs := insert out_dir (dirs w), stdout := stdout w @ lg @ [Found 1]\<rparr>) =
        (None, w\<lparr>dirs := insert (path_dirname ev (path_join ev out_dir (str_of ''a.bin'')))
                            (insert out_dir (dirs w)),
                  files := (files w)(path_join ev out_dir (str_of ''a.bin'')
                             \<mapsto> take sz (drop off arch)),
                  stdout := stdout w @ lg @ [Found 1, Extracted (str_of ''a.bin'') sz]\<rparr>)"
    by (simp add: sanitize_a_bin c)
  with x payload show ?thesis by simp
qed

theorem extract_file_roundtrip_witness:
  "fst (extract_file sample_env sample_archive (str_of ''out'') empty_world) = None
   \<and> files (snd (extract_file sample_env sample_archive (str_of ''out'') empty_world))
        (str_of ''out/a.bin'') = Some [1, 2, 3]"
  using extract_file_roundtrip [of sample_archive 280 3 sample_env "str_of ''out''" empty_world]
  by (simp add: sample_archive_facts sample_env_simps decode_ascii_a_bin sample_paths)

text \<open>
  Claim C1 as stated, for every offset and size, fails where one of them is zero: the
  extraction loop skips such an entry. An archive whose record has size 0 (and offset 280,
  the end of the file) and one whose record has offset 0 (and size 3) both end normally
  without any file written.
\<close>

theorem extract_file_roundtrip_counterexample:
  "take 10 sample_zero_size = HEADER_MAGIC
   \<and> take 6 (drop 16 sample_zero_size) = bytes_of ''a.bin'' @ [0]
   \<and> length sample_zero_size = 280
   \<and> le_u32 (take 4 (drop 272 sample_zero_size)) = 280
   \<and> le_u32 (take 4 (drop 276 sample_zero_size)) = 0
   \<and> fst (extract_file sample_env sample_zero_size (str_of ''out'') empty_world) = None
   \<and> files (snd (extract_file sample_env sample_zero_size (str_of ''out'') empty_world)) = Map.empty
   \<and> take 10 sample_zero_offset = HEADER_MAGIC
   \<and> take 6 (drop 16 sample_zero_offset) = bytes_of ''a.bin'' @ [0]
   \<and> length sample_zero_offset = 280
   \<and> le_u32 (take 4 (drop 272 sample_zero_offset)) = 0
   \<and> le_u32 (take 4 (drop 276 sample_zero_offset)) = 3
   \<and> fst (extract_file sample_env sample_zero_offset (str_of ''out'') empty_world) = None
   \<and> files (snd (extract_file sample_env sample_zero_offset (str_of ''out'') empty_world)) = Map.empty"
proof -
  have dec: "decode sample_env (bytes_of ''a.bin'') = str_of ''a.bin''"
    by (simp add: sample_env_simps decode_ascii_a_bin)
  have mk: "mk_fault sample_env (str_of ''out'') empty_world = None"
    by (simp add: sample_env_simps)
  have "280 \<le> length sample_zero_size" "length sample_zero_size < 544"
    by (simp_all add: sample_zero_size_facts)
  from extract_file_single_short [OF sample_zero_size_facts(1,2) this dec mk]
  obtain lg f' where
    "extract_file sample_env sample_zero_size (str_of ''out'') empty_world =
       extract_entries sample_env (str_of ''out'') f' [(str_of ''a.bin'', 280, 0)]
         (empty_world\<lparr>dirs := insert (str_of ''out'') (dirs empty_world),
                       stdout := stdout empty_world @ lg @ [Found 1]\<rparr>)"
    unfolding sample_zero_size_facts by blast
  then have a: "fst (extract_file sample_env sample_zero_size (str_of ''out'') empty_world) = None
   \<and> files (snd (extract_file sample_env sample_zero_size (str_of ''out'') empty_world)) = Map.empty"
    by (simp add: extract_entries_skip_empty py_print_def empty_world_def)
  have "280 \<le> length sample_zero_offset" "length sample_zero_offset < 544"
    by (simp_all add: sample_zero_offset_facts)
  from extract_file_single_short [OF sample_zero_offset_facts(1,2) this dec mk]
  obtain lg f' where
    "extract_file sample_env sample_zero_offset (str_of ''out'') empty_world =
       extract_entries sample_env (str_of ''out'') f' [(str_of ''a.bin'', 0, 3)]
         (empty_world\<lparr>dirs := insert (str_of ''out'') (dirs empty_world),
                       stdout := stdout empty_world @ lg @ [Found 1]\<rparr>)"
    unfolding sample_zero_offset_facts by blast
  then have b: "fst (extract_file sample_env sample_zero_offset (str_of ''out'') empty_world) = None
   \<and> files (snd (extract_file sample_env sample_zero_offset (str_of ''out'') empty_world)) = Map.empty"
    by (simp add: extract_entries_skip_empty py_print_def empty_world_def)
  from a b sample_zero_size_facts(1-5) sample_zero_offset_facts(1-5) show ?thesis
    by blast
qed

subsection \<open>Failures while writing an entry\<close>

text \<open>
  Claim C5, as amended. For every entry of the table that is not skipped, an
  \<^verbatim>\<open>OSError\<close> raised while opening its output file or writing its bytes is absorbed: the
  failure line with the error is printed and the loop goes on with the next entry. As
  long as the directories can be created, the loop never ends with an exception and prints
  one line for every entry.
\<close>

theorem extract_entries_absorbs_write_failure:
  "(offset \<noteq> 0 \<and> size' \<noteq> 0 \<and> sanitize_filename (plat ev) name \<noteq> []
      \<and> os_makedirs ev (path_dirname ev (path_join ev out_dir (sanitize_filename (plat ev) name))) w
          = Inr w1
      \<and> write_file ev (path_join ev out_dir (sanitize_filename (plat ev) name))
            (take size' (drop offset (content f))) w1 = (Some errno, w2)
      \<longrightarrow> extract_entries ev out_dir f ((name, offset, size') # rest) w =
            extract_entries ev out_dir (snd (f_read size' (f_seek offset f))) rest
              (py_print (Failed (sanitize_filename (plat ev) name) errno) w2))
   \<and> ((\<forall>p w'. mk_fault ev p w' = None) \<longrightarrow>
        fst (extract_entries ev out_dir f entries w) = None
        \<and> length (stdout (snd (extract_entries ev out_dir f entries w))) =
            length (stdout w) + length entries)"
proof (intro conjI impI)
  assume a: "offset \<noteq> 0 \<and> size' \<noteq> 0 \<and> sanitize_filename (plat ev) name \<noteq> []
      \<and> os_makedirs ev (path_dirname ev (path_join ev out_dir (sanitize_filename (plat ev) name))) w
          = Inr w1
      \<and> write_file ev (path_join ev out_dir (sanitize_filename (plat ev) name))
            (take size' (drop offset (content f))) w1 = (Some errno, w2)"
  obtain data f2 where rd: "f_read size' (f_seek offset f) = (data, f2)"
    by (cases "f_read size' (f_seek offset f)")
  then have "data = take size' (drop offset (content f))"
    by (auto simp: f_read_def f_seek_def Let_def)
  with a have wf: "write_file ev (path_join ev out_dir (sanitize_filename (plat ev) name)) data w1 =
      (Some errno, w2)" by simp
  from a have mk: "os_makedirs ev
      (path_dirname ev (path_join ev out_dir (sanitize_filename (plat ev) name))) w = Inr w1"
    and nz: "offset \<noteq> 0" "size' \<noteq> 0" and ne: "sanitize_filename (plat ev) name \<noteq> []"
    by simp_all
  show "extract_entries ev out_dir f ((name, offset, size') # rest) w =
            extract_entries ev out_dir (snd (f_read size' (f_seek offset f))) rest
              (py_print (Failed (sanitize_filename (plat ev) name) errno) w2)"
    by (simp add: Let_def nz ne mk rd wf)
next
  assume mk: "\<forall>p w'. mk_fault ev p w' = None"
  from extract_entries_no_abort [OF mk, of out_dir f entries w]
  show "fst (extract_entries ev out_dir f entries w) = None"
    and "length (stdout (snd (extract_entries ev out_dir f entries w))) =
            length (stdout w) + length entries"
    by simp_all
qed

theorem extract_entries_absorbs_write_failure_witness:
  "extract_entries sample_env_write_fails (str_of ''out'') (open_rb sample_archive)
     [(str_of ''a.bin'', 280, 3), (str_of ''b.bin'', 280, 3)] empty_world =
     (None, \<lparr>files = [str_of ''out/b.bin'' \<mapsto> [1, 2, 3]], dirs = {str_of ''out''},
             stdout = [Failed (str_of ''a.bin'') 13, Extracted (str_of ''b.bin'') 3]\<rparr>)"
proof -
  let ?ev = sample_env_write_fails
  let ?w1 = "empty_world\<lparr>dirs := {str_of ''out''}\<rparr>"
  have ne: "sanitize_filename (plat ?ev) (str_of ''a.bin'') \<noteq> []"
    unfolding sanitize_a_bin by (simp add: str_of_simps)
  have mk: "os_makedirs ?ev (path_dirname ?ev (path_join ?ev (str_of ''out'')
        (sanitize_filename (plat ?ev) (str_of ''a.bin'')))) empty_world = Inr ?w1"
    by (simp add: os_makedirs_def sample_env_write_fails_simps sanitize_a_bin sample_paths
        empty_world_def)
  have wf: "write_file ?ev (path_join ?ev (str_of ''out'') (sanitize_filename (plat ?ev) (str_of ''a.bin'')))
      (take 3 (drop 280 (content (open_rb sample_archive)))) ?w1 = (Some 13, ?w1)"
    by (simp add: write_file_def sample_env_write_fails_simps sanitize_a_bin sample_paths)
  have differ: "str_of ''out/b.bin'' \<noteq> str_of ''out/a.bin''"
    by (simp add: str_of_simps)
  from extract_entries_absorbs_write_failure
    [of 280 3 ?ev "str_of ''a.bin''" "str_of ''out''" empty_world ?w1 "open_rb sample_archive" 13 ?w1
       "[(str_of ''b.bin'', 280, 3)]"]
    ne mk wf
  have "extract_entries ?ev (str_of ''out'') (open_rb sample_archive)
     [(str_of ''a.bin'', 280, 3), (str_of ''b.bin'', 280, 3)] empty_world =
     extract_entries ?ev (str_of ''out'') (snd (f_read 3 (f_seek 280 (open_rb sample_archive))))
       [(str_of ''b.bin'', 280, 3)] (py_print (Failed (str_of ''a.bin'') 13) ?w1)"
    by (simp add: sanitize_a_bin)
  also have "\<dots> = (None, \<lparr>files = [str_of ''out/b.bin'' \<mapsto> [1, 2, 3]], dirs = {str_of ''out''},
             stdout = [Failed (str_of ''a.bin'') 13, Extracted (str_of ''b.bin'') 3]\<rparr>)"
    by (simp add: Let_def open_rb_def sample_payload sample_env_write_fails_simps sanitize_b_bin
        sample_paths os_makedirs_def write_file_def py_print_def empty_world_def differ
        b_bin_nonempty)
  finally show ?thesis .
qed

text \<open>
  Claim C5 as stated covers the creation of the entry's output path as well. The call of
  \<^verbatim>\<open>os.makedirs\<close> for the entry's directory stands before the \<^verbatim>\<open>try\<close>: when it fails, the
  exception ends the run, nothing is printed for the entry and no later entry is looked at.
\<close>

theorem extract_entries_absorbs_write_failure_counterexample:
  "fst (extract_file sample_env_makedirs_fails sample_archive (str_of ''out'') empty_world) =
     Some (OSError 13)
   \<and> files (snd (extract_file sample_env_makedirs_fails sample_archive (str_of ''out'') empty_world)) =
       Map.empty
   \<and> extract_entries sample_env_makedirs_fails (str_of ''out'') (open_rb sample_archive)
       [(str_of ''a.bin'', 280, 3), (str_of ''b.bin'', 280, 3)] (empty_world\<lparr>stdout := [Found 2]\<rparr>) =
       (Some (OSError 13), empty_world\<lparr>stdout := [Found 2]\<rparr>)"
proof -
  let ?ev = sample_env_makedirs_fails
  have abort: "extract_entries ?ev (str_of ''out'') f ((str_of ''a.bin'', 280, 3) # rest) w =
      (Some (OSError 13), w)" if "stdout w \<noteq> []" for f rest w
    using that
    by (simp add: Let_def sample_env_makedirs_fails_simps sanitize_a_bin os_makedirs_def
        a_bin_nonempty)
  have dec: "decode ?ev (bytes_of ''a.bin'') = str_of ''a.bin''"
    by (simp add: sample_env_makedirs_fails_simps decode_ascii_a_bin)
  have mk: "mk_fault ?ev (str_of ''out'') empty_world = None"
    by (simp add: sample_env_makedirs_fails_simps empty_world_def)
  have "280 \<le> length sample_archive" "length sample_archive < 544"
    by (simp_all add: sample_archive_facts)
  from extract_file_single_short [OF sample_archive_facts(1,2) this dec mk]
  obtain lg f' where
    x: "extract_file ?ev sample_archive (str_of ''out'') empty_world =
       extract_entries ?ev (str_of ''out'') f' [(str_of ''a.bin'', 280, 3)]
         (empty_world\<lparr>dirs := insert (str_of ''out'') (dirs empty_world),
                       stdout := stdout empty_world @ lg @ [Found 1]\<rparr>)"
    unfolding sample_archive_facts by blast
  have "extract_entries ?ev (str_of ''out'') f' [(str_of ''a.bin'', 280, 3)]
         (empty_world\<lparr>dirs := insert (str_of ''out'') (dirs empty_world),
                       stdout := stdout empty_world @ lg @ [Found 1]\<rparr>) =
        (Some (OSError 13),
         empty_world\<lparr>dirs := insert (str_of ''out'') (dirs empty_world),
                       stdout := stdout empty_world @ lg @ [Found 1]\<rparr>)"
    by (rule abort) simp
  then have "extract_file ?ev sample_archive (str_of ''out'') empty_world =
        (Some (OSError 13),
         empty_world\<lparr>dirs := insert (str_of ''out'') (dirs empty_world),
                       stdout := stdout empty_world @ lg @ [Found 1]\<rparr>)"
    by (simp only: x)
  then have "fst (extract_file ?ev sample_archive (str_of ''out'') empty_world) = Some (OSError 13)
   \<and> files (snd (extract_file ?ev sample_archive (str_of ''out'') empty_world)) = Map.empty"
    by (simp add: empty_world_def)
  moreover have "extract_entries ?ev (str_of ''out'') (open_rb sample_archive)
       [(str_of ''a.bin'', 280, 3), (str_of ''b.bin'', 280, 3)] (empty_world\<lparr>stdout := [Found 2]\<rparr>) =
       (Some (OSError 13), empty_world\<lparr>stdout := [Found 2]\<rparr>)"
    by (rule abort) simp
  ultimately show ?thesis by blast
qed

end
